theory Spec2Isabelle
  imports Complex_Main "HOL-Library.Word"
begin

section \<open>Strings of the runtime\<close>

text \<open>
  A JavaScript string is a sequence of UTF-16 code units, and \<open>length\<close> counts code
  units.
\<close>

type_synonym code_unit = "16 word"
type_synonym jsstring = "code_unit list"

text \<open>
  The class \<open>\s\<close> of a JavaScript regular expression: the WhiteSpace and LineTerminator
  code points of ECMAScript, every one of them a single code unit.
\<close>

definition isWhiteSpace :: "code_unit \<Rightarrow> bool" where
  "isWhiteSpace c =
     (c = 0x0009 \<or> c = 0x000A \<or> c = 0x000B \<or> c = 0x000C \<or> c = 0x000D \<or> c = 0x0020
      \<or> c = 0x00A0 \<or> c = 0x1680 \<or> (0x2000 \<le> c \<and> c \<le> 0x200A)
      \<or> c = 0x2028 \<or> c = 0x2029 \<or> c = 0x202F \<or> c = 0x205F \<or> c = 0x3000
      \<or> c = 0xFEFF)"

definition LF :: code_unit where
  "LF = 0x000A"

section \<open>Regular expressions and split\<close>

text \<open>
  The fragment of regular expressions the program uses: a literal character, the class
  \<open>\s\<close>, concatenation and the greedy star. \<open>r+\<close> is \<open>r\<close> followed by \<open>r*\<close>.
\<close>

datatype regex = Chr code_unit | Space | Seq regex regex | Star regex

definition Plus_re :: "regex \<Rightarrow> regex" where
  "Plus_re r = Seq r (Star r)"

text \<open>
  The backtracking matcher: \<open>ends r s\<close> lists what is left of \<open>s\<close> after each way
  \<open>r\<close> matches a prefix of it, in the order the matcher tries them (a greedy star first
  takes one more iteration, then stops). An iteration of a star that consumes nothing is
  rejected, as the RepeatMatcher of ECMAScript does.
\<close>

fun ends :: "regex \<Rightarrow> jsstring \<Rightarrow> jsstring list" where
  "ends (Chr c) s = (case s of [] \<Rightarrow> [] | x # xs \<Rightarrow> if x = c then [xs] else [])"
| "ends Space s = (case s of [] \<Rightarrow> [] | x # xs \<Rightarrow> if isWhiteSpace x then [xs] else [])"
| "ends (Seq a b) s = concat (map (ends b) (ends a s))"
| "ends (Star a) s =
     concat (map (\<lambda>s'. if length s' < length s then ends (Star a) s' else []) (ends a s)) @ [s]"

declare ends.simps(4) [simp del]

text \<open>A match attempt at the start of \<open>s\<close>: what is left after the first match found.\<close>

definition firstMatch :: "regex \<Rightarrow> jsstring \<Rightarrow> jsstring option" where
  "firstMatch r s = (case ends r s of [] \<Rightarrow> None | e # _ \<Rightarrow> Some e)"

text \<open>
  \<open>String.prototype.split\<close> with a regular expression (RegExp.prototype[Symbol.split]):
  \<open>cur\<close> is the text between \<open>p\<close> and \<open>q\<close>, the last argument the text from
  \<open>q\<close> on. A match attempt is made at \<open>q\<close>; when it fails, or when it ends at
  \<open>p\<close> (an empty match where the last one ended), \<open>q\<close> moves one code unit on;
  otherwise the text between \<open>p\<close> and \<open>q\<close> is pushed and both move to the end of
  the match. The text after the last match is pushed last. The program passes no limit.
\<close>

function splitLoop :: "regex \<Rightarrow> jsstring \<Rightarrow> jsstring \<Rightarrow> jsstring list" where
  "splitLoop r cur [] = [cur]"
| "splitLoop r cur (c # cs) =
     (case firstMatch r (c # cs) of
        None \<Rightarrow> splitLoop r (cur @ [c]) cs
      | Some e \<Rightarrow>
          if length e = length (c # cs) \<and> cur = [] then splitLoop r (cur @ [c]) cs
          else cur # splitLoop r [] e)"
  by pat_completeness auto
termination
proof -
  have ends_length: "length e \<le> length s" if "e \<in> set (ends r s)" for e r s
    using that
  proof (induction r s arbitrary: e rule: ends.induct)
    case (1 c s)
    then show ?case by (auto split: list.splits if_splits)
  next
    case (2 s)
    then show ?case by (auto split: list.splits if_splits)
  next
    case (3 a b s)
    from "3.prems" obtain m where m: "m \<in> set (ends a s)" and e: "e \<in> set (ends b m)"
      by auto
    from "3.IH"(1) [OF m] "3.IH"(2) [OF m e] show ?case by simp
  next
    case (4 a s)
    have "e \<in> set (concat (map (\<lambda>s'. if length s' < length s then ends (Star a) s' else [])
        (ends a s)) @ [s])"
      using "4.prems" by (subst (asm) ends.simps(4)) simp
    then consider "e = s"
      | m where "m \<in> set (ends a s)" "length m < length s" "e \<in> set (ends (Star a) m)"
      by (auto simp del: ends.simps split: if_splits)
    then show ?case
    proof cases
      case 1
      then show ?thesis by simp
    next
      case 2
      from "4.IH"(2) [OF 2(1) 2(2) 2(3)] 2(2) show ?thesis by simp
    qed
  qed
  have firstMatch_length: "length e \<le> length s" if "firstMatch r s = Some e" for e r s
  proof -
    from that have "e \<in> set (ends r s)"
      by (auto simp: firstMatch_def split: list.splits)
    then show ?thesis by (rule ends_length)
  qed
  show ?thesis
  proof (relation "measure (\<lambda>(r, cur, s). 2 * length s + (if cur = [] then 0 else 1))")
    show "wf (measure (\<lambda>(r, cur, s). 2 * length s + (if cur = [] then 0 else 1)))"
      by simp
  next
    fix r :: regex and cur :: jsstring and c cs
    show "((r, cur @ [c], cs), (r, cur, c # cs))
            \<in> measure (\<lambda>(r, cur, s). 2 * length s + (if cur = [] then 0 else 1))"
      by simp
  next
    fix r :: regex and cur :: jsstring and c cs e
    show "((r, cur @ [c], cs), (r, cur, c # cs))
            \<in> measure (\<lambda>(r, cur, s). 2 * length s + (if cur = [] then 0 else 1))"
      by simp
  next
    fix r :: regex and cur :: jsstring and c cs e
    assume m: "firstMatch r (c # cs) = Some e"
      and n: "\<not> (length e = length (c # cs) \<and> cur = [])"
    from firstMatch_length [OF m] n
    show "((r, [], e), (r, cur, c # cs))
            \<in> measure (\<lambda>(r, cur, s). 2 * length s + (if cur = [] then 0 else 1))"
      by auto
  qed
qed

text \<open>
  On the empty string, split returns no element when the expression matches the empty
  string and the one empty string otherwise.
\<close>

definition split :: "regex \<Rightarrow> jsstring \<Rightarrow> jsstring list" where
  "split r s =
     (if s = [] then (case firstMatch r [] of None \<Rightarrow> [[]] | Some _ \<Rightarrow> [])
      else splitLoop r [] s)"

section \<open>Text metrics\<close>

text \<open>
  \<open>Omit<FileStats, "path">\<close>, the result of \<open>processText\<close>. The counts are lengths
  of arrays and strings; \<open>readTime\<close> is the number \<open>Math.ceil\<close> returns.
\<close>

record textStats =
  wordCount :: nat
  charCount :: nat
  paragraphCount :: nat
  readTime :: real

definition SILENT_READING_WPM :: real where
  "SILENT_READING_WPM = 238"

text \<open>\<open>/\s+/\<close> and \<open>/\n\s*\n/\<close>, the two expressions \<open>processText\<close> splits on.\<close>

definition wordSeparator :: regex where
  "wordSeparator = Plus_re Space"

definition paragraphSeparator :: regex where
  "paragraphSeparator = Seq (Chr LF) (Seq (Star Space) (Chr LF))"

text \<open>
  \<open>processText\<close>. \<open>String.prototype.toLowerCase\<close> is the runtime's Unicode case
  mapping; it is the parameter \<open>toLowerCase\<close>, so every result below holds for
  whatever mapping the runtime has. \<open>filter(Boolean)\<close> keeps the non-empty strings.
  \<open>wordCount / 238\<close> is a division of numbers and \<open>Math.ceil\<close> its ceiling; a word
  count is below \<open>2^53\<close>, where the floating-point quotient has the ceiling of the
  exact one.
\<close>

definition processText :: "(jsstring \<Rightarrow> jsstring) \<Rightarrow> jsstring \<Rightarrow> textStats" where
  "processText toLowerCase text =
     (let normalizedText = toLowerCase text;
          words = filter (\<lambda>w. w \<noteq> []) (split wordSeparator normalizedText);
          wordCount = length words;
          charCount = length normalizedText;
          paragraphCount =
            length (filter (\<lambda>p. p \<noteq> []) (split paragraphSeparator normalizedText));
          readTime = real_of_int \<lceil>real wordCount / SILENT_READING_WPM\<rceil>
      in \<lparr>wordCount = wordCount, charCount = charCount,
          paragraphCount = paragraphCount, readTime = readTime\<rparr>)"

text \<open>
  A case mapping for the letters \<open>A\<close> to \<open>Z\<close> alone, to run \<open>processText\<close> on
  concrete ASCII text.
\<close>

definition asciiLower :: "jsstring \<Rightarrow> jsstring" where
  "asciiLower = map (\<lambda>c. if 0x41 \<le> c \<and> c \<le> 0x5A then c + 0x20 else c)"

text \<open>The code units of an ASCII string literal.\<close>

definition units :: "string \<Rightarrow> jsstring" where
  "units = map (\<lambda>c. of_char c)"

section \<open>Formatting\<close>

text \<open>
  Numbers are IEEE 754 doubles. A finite one is modelled by the real it denotes;
  \<open>NaN\<close>, the infinities and the sign of zero are left out. The result of \<open>/\<close> and
  of \<open>*\<close> is the exact result rounded to the nearest double, to the one with the even
  significand when two are as near: \<open>double\<close>, with 53 bits of significand and the
  subnormal numbers below \<open>2^-1022\<close>. No operation of \<open>formatReadTime\<close> exceeds the
  largest double, so overflow is left out.
\<close>

text \<open>The binary exponent of a positive number, not below that of the subnormal numbers.\<close>

fun log2floor :: "nat \<Rightarrow> nat" where
  "log2floor n = (if n < 2 then 0 else Suc (log2floor (n div 2)))"

declare log2floor.simps [simp del]

function doublings :: "nat \<Rightarrow> real \<Rightarrow> nat" where
  "doublings k x = (if 1 \<le> x \<or> 1022 \<le> k then k else doublings (Suc k) (2 * x))"
  by pat_completeness auto
termination
  by (relation "measure (\<lambda>(k, x). 1022 - k)") auto

declare doublings.simps [simp del]

definition exponent :: "real \<Rightarrow> int" where
  "exponent x = (if 1 \<le> x then int (log2floor (nat \<lfloor>x\<rfloor>)) else - int (doublings 0 x))"

definition pow2 :: "int \<Rightarrow> real" where
  "pow2 e = (if 0 \<le> e then 2 ^ nat e else 1 / 2 ^ nat (- e))"

definition roundHalfEven :: "real \<Rightarrow> int" where
  "roundHalfEven q =
     (if q - real_of_int \<lfloor>q\<rfloor> < 1 / 2 then \<lfloor>q\<rfloor>
      else if 1 / 2 < q - real_of_int \<lfloor>q\<rfloor> then \<lfloor>q\<rfloor> + 1
      else if even \<lfloor>q\<rfloor> then \<lfloor>q\<rfloor> else \<lfloor>q\<rfloor> + 1)"

definition double :: "real \<Rightarrow> real" where
  "double x =
     (if x = 0 then 0
      else (let ulp = pow2 (exponent \<bar>x\<bar> - 52)
            in sgn x * (ulp * real_of_int (roundHalfEven (\<bar>x\<bar> / ulp)))))"

text \<open>
  The operator \<open>%\<close> on numbers: the remainder has the sign of the dividend (the
  quotient is truncated towards zero). The remainder of two doubles is a double, so
  \<open>%\<close> does not round.
\<close>

definition jsRem :: "real \<Rightarrow> real \<Rightarrow> real" where
  "jsRem x y = x - y * real_of_int (if 0 \<le> x / y then \<lfloor>x / y\<rfloor> else \<lceil>x / y\<rceil>)"

text \<open>The decimal digits of a natural number.\<close>

fun digits :: "nat \<Rightarrow> string" where
  "digits n =
     (if n < 10 then [''0123456789'' ! n]
      else digits (n div 10) @ [''0123456789'' ! (n mod 10)])"

declare digits.simps [simp del]

text \<open>
  An integral number as a template literal prints it (\<open>Number::toString\<close>): the
  digits of the decimal with the fewest significant digits that denotes the number, the
  nearest to it when there are several, in full up to 21 digits and with an exponent
  beyond. \<open>shortest j x\<close> looks for that decimal among the multiples of
  \<open>10^j\<close>, \<open>10^(j-1)\<close>, ... next to \<open>x\<close>. Below \<open>2^53\<close> every whole number is
  a double, and its shortest decimal is the number itself.
\<close>

fun shortest :: "nat \<Rightarrow> nat \<Rightarrow> nat" where
  "shortest 0 x = x"
| "shortest (Suc j) x =
     (let p = 10 ^ Suc j;
          lo = (x div p) * p;
          hi = lo + p;
          okLo = (0 < lo \<and> double (real lo) = real x);
          okHi = (double (real hi) = real x)
      in if okLo \<and> okHi
         then (if x - lo < hi - x then lo
               else if hi - x < x - lo then hi
               else if even (x div p) then lo else hi)
         else if okLo then lo
         else if okHi then hi
         else shortest j x)"

definition stripZeros :: "string \<Rightarrow> string" where
  "stripZeros s = rev (dropWhile (\<lambda>c. c = CHR ''0'') (rev s))"

definition numberToString :: "int \<Rightarrow> string" where
  "numberToString x =
     (if x < 2 ^ 53 then digits (nat x)
      else (let ds = digits (shortest (length (digits (nat x))) (nat x));
                n = length ds;
                s = stripZeros ds
            in if n \<le> 21 then ds
               else if length s = 1 then s @ ''e+'' @ digits (n - 1)
               else [hd s] @ ''.'' @ tl s @ ''e+'' @ digits (n - 1)))"

definition toString :: "int \<Rightarrow> string" where
  "toString n = (if n < 0 then ''-'' @ numberToString (- n) else numberToString n)"

text \<open>\<open>Array.prototype.join\<close>.\<close>

fun join :: "string \<Rightarrow> string list \<Rightarrow> string" where
  "join sep [] = []"
| "join sep [x] = x"
| "join sep (x # y # ys) = x @ sep @ join sep (y # ys)"

text \<open>
  \<open>formatReadTime\<close>. \<open>Math.floor\<close> is the floor and \<open>Math.round\<close> rounds a half
  up, as \<open>round\<close> does, both without error; \<open>parts0\<close> to \<open>parts3\<close> are the array
  \<open>parts\<close> after each conditional push.
\<close>

definition formatReadTime :: "real \<Rightarrow> string" where
  "formatReadTime minutes =
     (let hours = \<lfloor>double (minutes / 60)\<rfloor>;
          remainingMinutes = \<lfloor>jsRem minutes 60\<rfloor>;
          seconds = round (double (jsRem minutes 1 * 60));
          parts0 = [];
          parts1 = (if hours > 0
                    then parts0 @ [toString hours @ '' '' @
                                   (if hours = 1 then ''hour'' else ''hours'')]
                    else parts0);
          parts2 = (if remainingMinutes > 0
                    then parts1 @ [toString remainingMinutes @ '' '' @
                                   (if remainingMinutes = 1 then ''minute'' else ''minutes'')]
                    else parts1);
          parts3 = (if seconds > 0 \<and> hours = 0
                    then parts2 @ [toString seconds @ '' '' @
                                   (if seconds = 1 then ''second'' else ''seconds'')]
                    else parts2)
      in if length parts3 > 0 then join '', '' parts3 else ''< 1 second'')"

text \<open>
  \<open>formatNumber\<close>: \<open>toLocaleString("en-US", { useGrouping: true })\<close> of a count, its
  decimal digits in groups of three separated by commas.
\<close>

definition threeDigits :: "nat \<Rightarrow> string" where
  "threeDigits n =
     [''0123456789'' ! (n div 100 mod 10), ''0123456789'' ! (n div 10 mod 10),
      ''0123456789'' ! (n mod 10)]"

fun formatNumber :: "nat \<Rightarrow> string" where
  "formatNumber num =
     (if num < 1000 then digits num
      else formatNumber (num div 1000) @ '','' @ threeDigits (num mod 1000))"

declare formatNumber.simps [simp del]

section \<open>Files\<close>

text \<open>
  The file system the runtime reads: a tree of directories and regular files. A file
  holds the text \<open>file.text()\<close> resolves to, or nothing when reading it fails. A
  directory holds its entries in the order the runtime lists them, or it is \<open>Denied\<close>:
  it cannot be listed. A path is a list of names, absolute or relative to the working
  directory; links and the names \<open>.\<close> and \<open>..\<close> are left out.
\<close>

datatype node = File "jsstring option" | Dir "(string \<times> node) list" | Denied

datatype fpath = Abs "string list" | Rel "string list"

datatype error = FileNotFound fpath | ReadFailed | ScanFailed

record runtime =
  toLowerCase :: "jsstring \<Rightarrow> jsstring"
  root :: node
  cwd :: "string list"

fun resolve :: "'a runtime_scheme \<Rightarrow> fpath \<Rightarrow> string list" where
  "resolve rt (Abs p) = p"
| "resolve rt (Rel p) = cwd rt @ p"

fun lookup :: "node \<Rightarrow> string list \<Rightarrow> node option" where
  "lookup n [] = Some n"
| "lookup (File c) (x # p) = None"
| "lookup Denied (x # p) = None"
| "lookup (Dir es) (x # p) = (case map_of es x of None \<Rightarrow> None | Some n \<Rightarrow> lookup n p)"

text \<open>
  \<open>Bun.file(path).exists()\<close>: true for a regular file, false for a directory and for
  a path that names nothing.
\<close>

definition exists :: "'a runtime_scheme \<Rightarrow> fpath \<Rightarrow> bool" where
  "exists rt path =
     (case lookup (root rt) (resolve rt path) of Some (File c) \<Rightarrow> True | _ \<Rightarrow> False)"

text \<open>\<open>Bun.file(path).text()\<close>: the text of the file, or a rejection.\<close>

definition readText :: "'a runtime_scheme \<Rightarrow> fpath \<Rightarrow> error + jsstring" where
  "readText rt path =
     (case lookup (root rt) (resolve rt path) of
        Some (File (Some content)) \<Rightarrow> Inr content
      | _ \<Rightarrow> Inl ReadFailed)"

text \<open>
  Glob patterns, one element per path segment: \<open>**/\<close> stands for any number of
  directories, and a name is matched by literal text, \<open>*\<close> (any characters of the
  name) and braces (one of the alternatives).
\<close>

datatype globAtom = Lit string | AnyChars | OneOf "string list"

datatype globSegment = AnyDirs | Name "globAtom list"

type_synonym glob = "globSegment list"

fun matchName :: "globAtom list \<Rightarrow> string \<Rightarrow> bool" where
  "matchName [] s = (s = [])"
| "matchName (Lit l # as) s =
     (length l \<le> length s \<and> take (length l) s = l \<and> matchName as (drop (length l) s))"
| "matchName (AnyChars # as) s =
     list_ex (\<lambda>k. matchName as (drop k s)) [0..<Suc (length s)]"
| "matchName (OneOf ls # as) s =
     list_ex (\<lambda>l. length l \<le> length s \<and> take (length l) s = l
                    \<and> matchName as (drop (length l) s)) ls"

text \<open>
  A scan is made with the default \<open>dot: false\<close>: a name that begins with a period is
  matched only by a pattern that begins with the period itself, never by a wildcard.
\<close>

definition hidden :: "string \<Rightarrow> bool" where
  "hidden n = (case n of [] \<Rightarrow> False | c # _ \<Rightarrow> c = CHR ''.'')"

fun explicitDot :: "globAtom list \<Rightarrow> bool" where
  "explicitDot (Lit l # as) = hidden l"
| "explicitDot as = False"

fun matchPath :: "glob \<Rightarrow> string list \<Rightarrow> bool" where
  "matchPath [] p = (p = [])"
| "matchPath (Name as # g) p =
     (case p of
        [] \<Rightarrow> False
      | n # ns \<Rightarrow> (\<not> hidden n \<or> explicitDot as) \<and> matchName as n \<and> matchPath g ns)"
| "matchPath (AnyDirs # g) p =
     (matchPath g p \<or>
      (case p of [] \<Rightarrow> False | n # ns \<Rightarrow> \<not> hidden n \<and> matchPath (AnyDirs # g) ns))"

text \<open>The regular files under a node, each by its path from the node, in listing order.\<close>

fun filesUnder :: "node \<Rightarrow> string list list" where
  "filesUnder (File c) = [[]]"
| "filesUnder (Dir es) = concat (map (\<lambda>(n, c). map ((#) n) (filesUnder c)) es)"
| "filesUnder Denied = []"

text \<open>
  Whether a scan can list every directory it opens: the directory it starts from, and
  when \<open>deep\<close> is set every directory under it that no name beginning with a
  period leads to; otherwise no subdirectory is opened.
\<close>

fun listable :: "bool \<Rightarrow> node \<Rightarrow> bool"
  and listableEntries :: "bool \<Rightarrow> (string \<times> node) list \<Rightarrow> bool" where
  "listable deep (File c) = True"
| "listable deep Denied = False"
| "listable deep (Dir es) = listableEntries deep es"
| "listableEntries deep [] = True"
| "listableEntries deep ((n, File c) # es) = listableEntries deep es"
| "listableEntries deep ((n, Dir sub) # es) =
     ((deep \<and> \<not> hidden n \<longrightarrow> listable deep (Dir sub)) \<and> listableEntries deep es)"
| "listableEntries deep ((n, Denied) # es) =
     (\<not> (deep \<and> \<not> hidden n) \<and> listableEntries deep es)"

text \<open>A pattern that begins with \<open>**/\<close> makes the scan open the subdirectories.\<close>

definition descends :: "glob \<Rightarrow> bool" where
  "descends g = (case g of AnyDirs # _ \<Rightarrow> True | _ \<Rightarrow> False)"

text \<open>
  \<open>glob.scan({ cwd: path, absolute: true, onlyFiles: true })\<close>: the absolute paths of
  the regular files under the directory \<open>path\<close> that the pattern matches. The scan
  fails when \<open>path\<close> is not a directory, and when it cannot list a directory it opens;
  it then yields no path.
\<close>

definition scan :: "glob \<Rightarrow> 'a runtime_scheme \<Rightarrow> fpath \<Rightarrow> error + fpath list" where
  "scan g rt path =
     (case lookup (root rt) (resolve rt path) of
        Some (Dir es) \<Rightarrow>
          if listable (descends g) (Dir es)
          then Inr (map (\<lambda>rel. Abs (resolve rt path @ rel))
                     (filter (matchPath g) (filesUnder (Dir es))))
          else Inl ScanFailed
      | _ \<Rightarrow> Inl ScanFailed)"

text \<open>The patterns \<open>"**/*.{txt,md,html,json}"\<close> and \<open>"*.{txt,md,html,json}"\<close>.\<close>

definition recursivePattern :: glob where
  "recursivePattern =
     [AnyDirs, Name [AnyChars, Lit ''.'', OneOf [''txt'', ''md'', ''html'', ''json'']]]"

definition flatPattern :: glob where
  "flatPattern = [Name [AnyChars, Lit ''.'', OneOf [''txt'', ''md'', ''html'', ''json'']]]"

section \<open>Processing files\<close>

record fileStats = textStats +
  path :: fpath

text \<open>Below, \<open>p\<close> is the variable \<open>path\<close> of the source.\<close>

text \<open>\<open>processFile\<close>: the error of a \<open>throw\<close> or of a rejected read is \<open>Inl\<close>.\<close>

definition processFile :: "'a runtime_scheme \<Rightarrow> fpath \<Rightarrow> error + fileStats" where
  "processFile rt p =
     (if \<not> exists rt p then Inl (FileNotFound p)
      else case readText rt p of
             Inl err \<Rightarrow> Inl err
           | Inr content \<Rightarrow>
               (let stats = processText (toLowerCase rt) content
                in Inr \<lparr>wordCount = wordCount stats, charCount = charCount stats,
                        paragraphCount = paragraphCount stats, readTime = readTime stats,
                        path = p\<rparr>))"

text \<open>
  What the loop of \<open>processFiles\<close> builds: the array \<open>results\<close>, and the lines
  \<open>console.error\<close> wrote, each the path and the error of
  \<open>error processing <path>: <err>\<close>.
\<close>

record collected =
  results :: "fileStats list"
  errors :: "(fpath \<times> error) list"

text \<open>The inner \<open>try\<close>: one file is processed and pushed, or its error is logged.\<close>

definition tryFile :: "'a runtime_scheme \<Rightarrow> collected \<Rightarrow> fpath \<Rightarrow> collected" where
  "tryFile rt st file =
     (case processFile rt file of
        Inr stats \<Rightarrow> st\<lparr>results := results st @ [stats]\<rparr>
      | Inl err \<Rightarrow> st\<lparr>errors := errors st @ [(file, err)]\<rparr>)"

text \<open>
  The body of the loop over the arguments: an existing file is handled directly, anything
  else is scanned as a directory; an error of the scan is caught by the outer \<open>try\<close>.
\<close>

definition processPath :: "'a runtime_scheme \<Rightarrow> bool \<Rightarrow> collected \<Rightarrow> fpath \<Rightarrow> collected" where
  "processPath rt recursive st p =
     (if exists rt p then tryFile rt st p
      else case scan (if recursive then recursivePattern else flatPattern) rt p of
             Inl err \<Rightarrow> st\<lparr>errors := errors st @ [(p, err)]\<rparr>
           | Inr found \<Rightarrow> foldl (tryFile rt) st found)"

definition collect :: "'a runtime_scheme \<Rightarrow> bool \<Rightarrow> fpath list \<Rightarrow> collected" where
  "collect rt recursive files =
     foldl (processPath rt recursive) \<lparr>results = [], errors = []\<rparr> files"

section \<open>The report\<close>

text \<open>
  Standard output is the list of the strings \<open>console.log\<close> was called with, one per
  call (\<open>console.log()\<close> writes the empty line). The colours of \<open>chalk\<close> are left
  out: \<open>chalk.cyan(x)\<close> is \<open>x\<close>.
\<close>

fun pathString :: "fpath \<Rightarrow> string" where
  "pathString (Abs p) = concat (map (\<lambda>n. ''/'' @ n) p)"
| "pathString (Rel p) = join ''/'' p"

text \<open>The four \<open>reduce\<close> calls of the totals.\<close>

definition totalWords :: "fileStats list \<Rightarrow> nat" where
  "totalWords rs = foldl (\<lambda>sum r. sum + wordCount r) 0 rs"

definition totalChars :: "fileStats list \<Rightarrow> nat" where
  "totalChars rs = foldl (\<lambda>sum r. sum + charCount r) 0 rs"

definition totalParas :: "fileStats list \<Rightarrow> nat" where
  "totalParas rs = foldl (\<lambda>sum r. sum + paragraphCount r) 0 rs"

definition totalTime :: "fileStats list \<Rightarrow> real" where
  "totalTime rs = foldl (\<lambda>sum r. sum + readTime r) 0 rs"

text \<open>The lines of one pass of the loop over the results.\<close>

definition fileLines :: "fileStats list \<Rightarrow> fileStats \<Rightarrow> string list" where
  "fileLines rs r =
     (if length rs > 1 then [[]] else []) @
     [''- '' @ pathString (path r),
      ''  words: '' @ formatNumber (wordCount r),
      ''  characters: '' @ formatNumber (charCount r),
      ''  paragraphs: '' @ formatNumber (paragraphCount r),
      ''  read time: '' @ formatReadTime (readTime r)]"

text \<open>
  What \<open>processFiles\<close> prints once the results are not empty: the individual file
  stats unless \<open>totalOnly\<close> is set, then the totals when there are several files.
\<close>

definition report :: "bool \<Rightarrow> fileStats list \<Rightarrow> string list" where
  "report totalOnly rs =
     (if \<not> totalOnly then concat (map (fileLines rs) rs) else []) @
     (if length rs > 1
      then [(if \<not> totalOnly then [CHR 0x0A] else []) @ ''totals:'',
            ''  files: '' @ formatNumber (length rs),
            ''  words: '' @ formatNumber (totalWords rs),
            ''  characters: '' @ formatNumber (totalChars rs),
            ''  paragraphs: '' @ formatNumber (totalParas rs),
            ''  total read time: '' @ formatReadTime (totalTime rs)]
      else [])"

record run =
  stdout :: "string list"
  stderr :: "(fpath \<times> error) list"
  analysed :: "fileStats list"
  exitCode :: nat

text \<open>
  \<open>processFiles\<close> of the entry point with \<open>--totalOnly\<close>. With no result the
  program prints one line and calls \<open>process.exit(0)\<close>; otherwise it prints the report
  and ends, which is exit code 0 as well.
\<close>

definition processFiles :: "'a runtime_scheme \<Rightarrow> bool \<Rightarrow> bool \<Rightarrow> fpath list \<Rightarrow> run" where
  "processFiles rt recursive totalOnly files =
     (let st = collect rt recursive files
      in if length (results st) = 0
         then \<lparr>stdout = [''no valid text files found.''], stderr = errors st,
               analysed = results st, exitCode = 0\<rparr>
         else \<lparr>stdout = report totalOnly (results st), stderr = errors st,
               analysed = results st, exitCode = 0\<rparr>)"

text \<open>
  The action of the other entry point, which has no \<open>--totalOnly\<close>: the same loop, the
  file stats always printed and the totals headed by \<open>"\ntotals:"\<close>.
\<close>

definition action :: "'a runtime_scheme \<Rightarrow> bool \<Rightarrow> fpath list \<Rightarrow> run" where
  "action rt recursive files = processFiles rt recursive False files"

section \<open>The notions the properties are stated with\<close>

text \<open>
  The maximal runs of a list in which every element satisfies \<open>P\<close>: the pairs of a
  first index and the index after the last, with no element satisfying \<open>P\<close> next to the
  run on either side.
\<close>

definition maximalRuns :: "('a \<Rightarrow> bool) \<Rightarrow> 'a list \<Rightarrow> (nat \<times> nat) set" where
  "maximalRuns P s =
     {(i, j). i < j \<and> j \<le> length s \<and> (\<forall>k. i \<le> k \<and> k < j \<longrightarrow> P (s ! k))
        \<and> (i = 0 \<or> \<not> P (s ! (i - 1))) \<and> (j = length s \<or> \<not> P (s ! j))}"

text \<open>
  What the properties of white space take from the runtime's case mapping: a string of
  white space has no cased character and is its own lower case.
\<close>

definition keepsWhiteSpace :: "(jsstring \<Rightarrow> jsstring) \<Rightarrow> bool" where
  "keepsWhiteSpace lc = (\<forall>s. list_all isWhiteSpace s \<longrightarrow> lc s = s)"

text \<open>
  A blank-line boundary: a newline, white space only, and another newline.
  \<open>boundaryAt s i n\<close> says that the \<open>n\<close> code units of \<open>s\<close> from index \<open>i\<close> are one.
\<close>

definition isBoundary :: "jsstring \<Rightarrow> bool" where
  "isBoundary b =
     (2 \<le> length b \<and> hd b = LF \<and> list_all isWhiteSpace (butlast (tl b)) \<and> last b = LF)"

definition boundaryAt :: "jsstring \<Rightarrow> nat \<Rightarrow> nat \<Rightarrow> bool" where
  "boundaryAt s i n = (i + n \<le> length s \<and> isBoundary (take n (drop i s)))"

text \<open>
  The segments of a text split on its blank-line boundaries: the text itself when it has
  no boundary; otherwise the text before the first boundary (where several start at the
  same index, the longest), followed by the segments of the text after that boundary.
\<close>

inductive segments :: "jsstring \<Rightarrow> jsstring list \<Rightarrow> bool" where
  whole: "\<forall>i n. \<not> boundaryAt s i n \<Longrightarrow> segments s [s]"
| cut: "boundaryAt s i n \<Longrightarrow>
        \<forall>i' n'. boundaryAt s i' n' \<longrightarrow> i \<le> i' \<and> (i' = i \<longrightarrow> n' \<le> n) \<Longrightarrow>
        segments (drop (i + n) s) segs \<Longrightarrow>
        segments s (take i s # segs)"

text \<open>
  The remainder of a division of numbers as mathematics has it for a positive divisor,
  and a count with its unit, the unit in the plural unless the count is one.
\<close>

definition modulo :: "real \<Rightarrow> real \<Rightarrow> real" where
  "modulo x y = x - y * real_of_int \<lfloor>x / y\<rfloor>"

definition component :: "int \<Rightarrow> string \<Rightarrow> string" where
  "component n unit = toString n @ '' '' @ unit @ (if n = 1 then [] else ''s'')"

text \<open>
  The text of a read time with the given hours, minutes and seconds: the components that
  are not zero in that order, the seconds only when the hours are zero, joined by a
  comma; \<open>< 1 second\<close> when all three are zero.
\<close>

definition components :: "int \<Rightarrow> int \<Rightarrow> int \<Rightarrow> string" where
  "components hours minutes seconds =
     (if hours = 0 \<and> minutes = 0 \<and> seconds = 0 then ''< 1 second''
      else join '', ''
             ((if hours \<noteq> 0 then [component hours ''hour''] else []) @
              (if minutes \<noteq> 0 then [component minutes ''minute''] else []) @
              (if seconds \<noteq> 0 \<and> hours = 0 then [component seconds ''second''] else [])))"

text \<open>The report has a totals block: one of its lines is the heading of the totals.\<close>

definition hasTotals :: "string list \<Rightarrow> bool" where
  "hasTotals out = (''totals:'' \<in> set out \<or> (CHR 0x0A # ''totals:'') \<in> set out)"

text \<open>
  A runtime to run the model with: the working directory \<open>/home\<close> holds the file
  \<open>notes.csv\<close> and the directory \<open>docs\<close>, with files of several extensions, a hidden
  file, a file that cannot be read and a subdirectory, and the directory \<open>vault\<close>, with
  a subdirectory that cannot be listed between two files.
\<close>

definition demo :: runtime where
  "demo =
     \<lparr>toLowerCase = asciiLower,
      root = Dir [(''home'', Dir [
               (''docs'', Dir [
                  (''a.txt'', File (Some (units ''one''))),
                  (''b.md'', File (Some (units ''two''))),
                  (''c.png'', File (Some (units ''three words here''))),
                  (''.draft.md'', File (Some (units ''hidden''))),
                  (''locked.json'', File None),
                  (''sub'', Dir [(''d.html'', File (Some (units ''four'')))])]),
               (''notes.csv'', File (Some (units ''Hello   world\<newline>\<newline>Foo''))),
               (''vault'', Dir [
                  (''k.txt'', File (Some (units ''key''))),
                  (''sealed'', Denied),
                  (''z.md'', File (Some (units ''last words'')))])])],
      cwd = [''home'']\<rparr>"

text \<open>
  A file name with one of the four extensions of the patterns.
\<close>

definition endsWith :: "string \<Rightarrow> string \<Rightarrow> bool" where
  "endsWith suffix s = (length suffix \<le> length s \<and> drop (length s - length suffix) s = suffix)"

definition allowedExtension :: "string \<Rightarrow> bool" where
  "allowedExtension n =
     (endsWith ''.txt'' n \<or> endsWith ''.md'' n \<or> endsWith ''.html'' n \<or> endsWith ''.json'' n)"

text \<open>
  The results and the error lines a list of files gives: a file that is processed gives
  its stats, a file whose processing fails gives the line of its path and error.
\<close>

definition succeeded :: "'a runtime_scheme \<Rightarrow> fpath list \<Rightarrow> fileStats list" where
  "succeeded rt found =
     concat (map (\<lambda>f. case processFile rt f of Inr stats \<Rightarrow> [stats] | Inl err \<Rightarrow> []) found)"

definition failed :: "'a runtime_scheme \<Rightarrow> fpath list \<Rightarrow> (fpath \<times> error) list" where
  "failed rt found =
     concat (map (\<lambda>f. case processFile rt f of Inr stats \<Rightarrow> [] | Inl err \<Rightarrow> [(f, err)]) found)"

text \<open>
  What analysing a file gives: the stats \<open>processText\<close> computes from the text of the
  file, under the path the file was named by; nothing when the text cannot be read.
\<close>

definition statsOfFile :: "'a runtime_scheme \<Rightarrow> fpath \<Rightarrow> fileStats list" where
  "statsOfFile rt f =
     (case readText rt f of
        Inr content \<Rightarrow>
          [\<lparr>wordCount = wordCount (processText (toLowerCase rt) content),
            charCount = charCount (processText (toLowerCase rt) content),
            paragraphCount = paragraphCount (processText (toLowerCase rt) content),
            readTime = readTime (processText (toLowerCase rt) content),
            path = f\<rparr>]
      | Inl err \<Rightarrow> [])"

text \<open>
  What a directory with the entries \<open>es\<close> expands to: the absolute paths, under the
  path \<open>base\<close> of the directory, of its regular files with one of the four extensions
  that no name beginning with a period leads to, at any depth when \<open>recursive\<close> is
  set and directly in the directory otherwise.
\<close>

definition expansion :: "string list \<Rightarrow> (string \<times> node) list \<Rightarrow> bool \<Rightarrow> fpath set" where
  "expansion base es recursive =
     (\<lambda>rel. Abs (base @ rel)) `
       {rel \<in> set (filesUnder (Dir es)).
          (\<forall>n \<in> set rel. \<not> hidden n) \<and> allowedExtension (last rel) \<and>
          (recursive \<or> length rel = 1)}"

subsection \<open>Auxiliary functions of the proofs\<close>

text \<open>
  The runs of non-white-space that start in \<open>s\<close>, where \<open>b\<close> says that the code unit
  before \<open>s\<close> is in a run already.
\<close>

fun runsFrom :: "bool \<Rightarrow> jsstring \<Rightarrow> nat" where
  "runsFrom b [] = 0"
| "runsFrom b (c # cs) =
     (if isWhiteSpace c then runsFrom False cs
      else (if b then 0 else 1) + runsFrom True cs)"

definition runStarts :: "('a \<Rightarrow> bool) \<Rightarrow> bool \<Rightarrow> 'a list \<Rightarrow> nat set" where
  "runStarts P b s =
     {i. i < length s \<and> P (s ! i) \<and> (if i = 0 then \<not> b else \<not> P (s ! (i - 1)))}"

text \<open>
  What is left of \<open>xs\<close> after each newline in its leading white space, the last
  newline first: the ways \<open>\s*\n\<close> matches at the start of \<open>xs\<close>.
\<close>

fun afterNewlines :: "jsstring \<Rightarrow> jsstring list" where
  "afterNewlines [] = []"
| "afterNewlines (x # xs) =
     (if isWhiteSpace x then afterNewlines xs @ (if x = LF then [xs] else []) else [])"

section \<open>The matcher on the two separators\<close>

lemma ends_Star_Space_Nil: "ends (Star Space) [] = [[]]"
  by (subst ends.simps(4)) simp

lemma ends_Star_Space_Cons:
  "ends (Star Space) (x # xs) =
     (if isWhiteSpace x then ends (Star Space) xs @ [x # xs] else [x # xs])"
  by (subst ends.simps(4)) simp

lemma ends_Star_Space_hd:
  "\<exists>rest. ends (Star Space) s = dropWhile isWhiteSpace s # rest"
proof (induction s)
  case Nil
  show ?case by (simp add: ends_Star_Space_Nil)
next
  case (Cons x xs)
  then obtain rest where "ends (Star Space) xs = dropWhile isWhiteSpace xs # rest" ..
  then show ?case by (simp add: ends_Star_Space_Cons)
qed

lemma firstMatch_wordSeparator:
  "firstMatch wordSeparator s =
     (case s of [] \<Rightarrow> None
      | x # xs \<Rightarrow> if isWhiteSpace x then Some (dropWhile isWhiteSpace xs) else None)"
proof (cases s)
  case Nil
  then show ?thesis by (simp add: firstMatch_def wordSeparator_def Plus_re_def)
next
  case (Cons x xs)
  obtain rest where "ends (Star Space) xs = dropWhile isWhiteSpace xs # rest"
    using ends_Star_Space_hd by blast
  with Cons show ?thesis by (simp add: firstMatch_def wordSeparator_def Plus_re_def)
qed

lemma isWhiteSpace_LF: "isWhiteSpace LF"
  by (simp add: isWhiteSpace_def LF_def)

lemma ends_Star_Space_LF:
  "concat (map (ends (Chr LF)) (ends (Star Space) xs)) = afterNewlines xs"
proof (induction xs)
  case Nil
  show ?case by (simp add: ends_Star_Space_Nil)
next
  case (Cons x xs)
  show ?case
  proof (cases "isWhiteSpace x")
    case True
    with Cons show ?thesis by (simp add: ends_Star_Space_Cons)
  next
    case False
    with isWhiteSpace_LF have "x \<noteq> LF" by auto
    with False show ?thesis by (simp add: ends_Star_Space_Cons)
  qed
qed

lemma ends_paragraphSeparator:
  "ends paragraphSeparator s =
     (case s of [] \<Rightarrow> [] | x # xs \<Rightarrow> if x = LF then afterNewlines xs else [])"
  by (cases s) (simp_all add: paragraphSeparator_def ends_Star_Space_LF)

section \<open>A case mapping to run the model with\<close>

lemma asciiLower_unit_ws: "isWhiteSpace c \<Longrightarrow> \<not> (0x41 \<le> c \<and> c \<le> 0x5A)"
  unfolding isWhiteSpace_def by (auto simp: word_le_nat_alt)

lemma asciiLower_unit_idem:
  fixes c :: code_unit
  shows "0x41 \<le> c \<Longrightarrow> c \<le> 0x5A \<Longrightarrow> \<not> (0x41 \<le> c + 0x20 \<and> c + 0x20 \<le> 0x5A)"
  by (auto simp: word_le_nat_alt unat_word_ariths)

lemma asciiLower_idem: "asciiLower (asciiLower s) = asciiLower s"
  unfolding asciiLower_def using asciiLower_unit_idem by (induction s) auto

lemma asciiLower_white: "list_all isWhiteSpace s \<Longrightarrow> asciiLower s = s"
  unfolding asciiLower_def using asciiLower_unit_ws by (induction s) auto

lemma keepsWhiteSpace_asciiLower: "keepsWhiteSpace asciiLower"
  by (simp add: keepsWhiteSpace_def asciiLower_white)

lemma asciiLower_replicate:
  "asciiLower (concat (replicate n (units ''a ''))) = concat (replicate n (units ''a ''))"
  by (induction n) (simp_all add: units_def asciiLower_def)

section \<open>Reading time\<close>

lemma ceiling_238: "real_of_int \<lceil>real n / 238\<rceil> = real ((n + 237) div 238)"
proof -
  have "\<lceil>real n / 238\<rceil> = - \<lfloor>- (real n / 238)\<rfloor>" by (simp add: ceiling_def)
  also have "- (real n / 238) = real_of_int (- int n) / real_of_int 238" by simp
  also have "\<lfloor>real_of_int (- int n) / real_of_int 238\<rfloor> = (- int n) div 238"
    by (rule floor_divide_of_int_eq)
  also have "- ((- int n) div 238) = int ((n + 237) div 238)"
    by (simp add: zdiv_int)
  finally show ?thesis by simp
qed

lemma readTime_processText:
  "readTime (processText lc t) = real_of_int \<lceil>real (wordCount (processText lc t)) / 238\<rceil>"
  by (simp add: processText_def Let_def SILENT_READING_WPM_def)

section \<open>Words\<close>

lemma runsFrom_dropWhile: "runsFrom False (dropWhile isWhiteSpace s) = runsFrom False s"
  by (induction s) simp_all

lemma length_dropWhile_less: "length (dropWhile P xs) < Suc (length xs)"
  by (simp add: length_dropWhile_le less_Suc_eq_le)

lemma splitLoop_words:
  "length (filter (\<lambda>w. w \<noteq> []) (splitLoop wordSeparator cur s)) =
     (if cur = [] then 0 else 1) + runsFrom (cur \<noteq> []) s"
proof (induction wordSeparator cur s rule: splitLoop.induct)
  case (1 cur)
  show ?case by simp
next
  case (2 cur c cs)
  show ?case
  proof (cases "isWhiteSpace c")
    case True
    then have m: "firstMatch wordSeparator (c # cs) = Some (dropWhile isWhiteSpace cs)"
      by (simp add: firstMatch_wordSeparator)
    have ne: "length (dropWhile isWhiteSpace cs) \<noteq> length (c # cs)"
      using length_dropWhile_less [of isWhiteSpace cs] by simp
    from "2.hyps"(3) [OF m] ne
    have "length (filter (\<lambda>w. w \<noteq> []) (splitLoop wordSeparator [] (dropWhile isWhiteSpace cs))) =
            runsFrom False (dropWhile isWhiteSpace cs)"
      by simp
    with m ne True show ?thesis by (simp add: runsFrom_dropWhile)
  next
    case False
    then have m: "firstMatch wordSeparator (c # cs) = None"
      by (simp add: firstMatch_wordSeparator)
    from "2.hyps"(1) [OF m] m False show ?thesis by simp
  qed
qed

lemma wordCount_runsFrom: "wordCount (processText lc t) = runsFrom False (lc t)"
proof (cases "lc t = []")
  case True
  have "firstMatch wordSeparator [] = None"
    by (simp add: firstMatch_wordSeparator)
  with True show ?thesis by (simp add: processText_def Let_def split_def)
next
  case False
  with splitLoop_words [of "[]" "lc t"] show ?thesis
    by (simp add: processText_def Let_def split_def)
qed

lemma finite_runStarts: "finite (runStarts P b s)"
  by (rule finite_subset [of _ "{..<length s}"]) (auto simp: runStarts_def)

lemma runStarts_Nil: "runStarts P b [] = {}"
  by (simp add: runStarts_def)

lemma runStarts_Cons:
  "runStarts P b (c # cs) = (if P c \<and> \<not> b then {0} else {}) \<union> Suc ` runStarts P (P c) cs"
proof (rule set_eqI)
  fix i
  show "i \<in> runStarts P b (c # cs) \<longleftrightarrow>
        i \<in> (if P c \<and> \<not> b then {0} else {}) \<union> Suc ` runStarts P (P c) cs"
  proof (cases i)
    case 0
    then show ?thesis by (auto simp: runStarts_def)
  next
    case (Suc k)
    have "Suc k \<in> runStarts P b (c # cs) \<longleftrightarrow> k \<in> runStarts P (P c) cs"
      by (cases k) (auto simp: runStarts_def)
    with Suc show ?thesis by auto
  qed
qed

lemma card_Suc_image: "card (Suc ` A) = card A"
  by (simp add: card_image)

lemma card_insert_0_Suc_image: "finite A \<Longrightarrow> card (insert 0 (Suc ` A)) = Suc (card A)"
  by (simp add: card_Suc_image)

lemma card_runStarts_Cons:
  "card (runStarts P b (c # cs)) = (if P c \<and> \<not> b then 1 else 0) + card (runStarts P (P c) cs)"
  by (simp add: runStarts_Cons card_Suc_image card_insert_0_Suc_image finite_runStarts)

lemma runsFrom_card:
  "runsFrom b s = card (runStarts (\<lambda>c. \<not> isWhiteSpace c) b s)"
  by (induction s arbitrary: b) (simp_all add: runStarts_Nil card_runStarts_Cons)

lemma fst_maximalRuns: "fst ` maximalRuns P s = runStarts P False s"
proof (rule set_eqI)
  fix i
  show "i \<in> fst ` maximalRuns P s \<longleftrightarrow> i \<in> runStarts P False s"
  proof
    assume "i \<in> fst ` maximalRuns P s"
    then obtain j where "(i, j) \<in> maximalRuns P s" by force
    then show "i \<in> runStarts P False s"
      by (auto simp: maximalRuns_def runStarts_def)
  next
    assume i: "i \<in> runStarts P False s"
    define j where "j = (LEAST k. i < k \<and> (k = length s \<or> \<not> P (s ! k)))"
    have ex: "i < length s \<and> (length s = length s \<or> \<not> P (s ! length s))"
      using i by (simp add: runStarts_def)
    have j: "i < j \<and> (j = length s \<or> \<not> P (s ! j))"
      unfolding j_def by (rule LeastI [of "\<lambda>k. i < k \<and> (k = length s \<or> \<not> P (s ! k))", OF ex])
    have jle: "j \<le> length s"
      unfolding j_def by (rule Least_le [of "\<lambda>k. i < k \<and> (k = length s \<or> \<not> P (s ! k))", OF ex])
    have inside: "P (s ! k)" if "i \<le> k" "k < j" for k
    proof (cases "k = i")
      case True
      with i show ?thesis by (simp add: runStarts_def)
    next
      case False
      with that have ik: "i < k" by simp
      show ?thesis
      proof (rule ccontr)
        assume "\<not> P (s ! k)"
        with ik have "j \<le> k"
          unfolding j_def by (intro Least_le) simp
        with that show False by simp
      qed
    qed
    have "(i, j) \<in> maximalRuns P s"
      using i j jle inside by (auto simp: maximalRuns_def runStarts_def split: if_splits)
    then show "i \<in> fst ` maximalRuns P s" by force
  qed
qed

lemma inj_on_fst_maximalRuns: "inj_on fst (maximalRuns P s)"
proof (rule inj_onI)
  fix x y
  assume x: "x \<in> maximalRuns P s" and y: "y \<in> maximalRuns P s" and e: "fst x = fst y"
  obtain i j where xi: "x = (i, j)" by (cases x)
  obtain i' j' where yi: "y = (i', j')" by (cases y)
  from e xi yi have ii: "i' = i" by simp
  have "j = j'"
  proof (rule ccontr)
    assume "j \<noteq> j'"
    then consider "j < j'" | "j' < j" by linarith
    then show False
    proof cases
      case 1
      with x y xi yi ii show ?thesis
        by (auto simp: maximalRuns_def)
    next
      case 2
      with x y xi yi ii show ?thesis
        by (auto simp: maximalRuns_def)
    qed
  qed
  with xi yi ii show "x = y" by simp
qed

lemma card_maximalRuns: "card (maximalRuns P s) = card (runStarts P False s)"
  using card_image [OF inj_on_fst_maximalRuns, of P s] by (simp add: fst_maximalRuns)

lemma runsFrom_white: "list_all isWhiteSpace s \<Longrightarrow> runsFrom b s = 0"
  by (induction s arbitrary: b) simp_all

lemma runsFrom_replicate: "runsFrom False (concat (replicate n (units ''a ''))) = n"
  by (induction n) (simp_all add: units_def isWhiteSpace_def)

section \<open>Properties of the text metrics\<close>

text \<open>
  C1. For every text, \<open>readTime\<close> is the ceiling of \<open>wordCount / 238\<close>: a natural
  number of minutes (it is \<open>(wordCount + 237) div 238\<close>), zero exactly when there is no
  word; 238 words give 1, 239 words give 2 and no word gives 0. This holds whatever the
  case mapping \<open>lc\<close> of the runtime is.
\<close>

theorem readTime_ceiling:
  "readTime (processText lc t) = real_of_int \<lceil>real (wordCount (processText lc t)) / 238\<rceil>
   \<and> readTime (processText lc t) = real ((wordCount (processText lc t) + 237) div 238)
   \<and> (readTime (processText lc t) = 0 \<longleftrightarrow> wordCount (processText lc t) = 0)
   \<and> (wordCount (processText lc t) = 238 \<longrightarrow> readTime (processText lc t) = 1)
   \<and> (wordCount (processText lc t) = 239 \<longrightarrow> readTime (processText lc t) = 2)
   \<and> (wordCount (processText lc t) = 0 \<longrightarrow> readTime (processText lc t) = 0)"
proof -
  let ?n = "wordCount (processText lc t)"
  have r: "readTime (processText lc t) = real ((?n + 237) div 238)"
    by (simp only: readTime_processText ceiling_238)
  have z: "(?n + 237) div 238 = 0 \<longleftrightarrow> ?n = 0"
    by (simp add: div_eq_0_iff)
  show ?thesis
    using r z by (simp add: readTime_processText [symmetric])
qed

theorem readTime_ceiling_witness:
  "wordCount (processText asciiLower (concat (replicate 238 (units ''a '')))) = 238
   \<and> readTime (processText asciiLower (concat (replicate 238 (units ''a '')))) = 1
   \<and> wordCount (processText asciiLower (concat (replicate 239 (units ''a '')))) = 239
   \<and> readTime (processText asciiLower (concat (replicate 239 (units ''a '')))) = 2
   \<and> wordCount (processText asciiLower []) = 0
   \<and> readTime (processText asciiLower []) = 0"
proof -
  have w: "wordCount (processText asciiLower (concat (replicate n (units ''a '')))) = n" for n
    by (simp only: wordCount_runsFrom asciiLower_replicate runsFrom_replicate)
  have e: "wordCount (processText asciiLower []) = 0"
    by (simp add: wordCount_runsFrom asciiLower_def)
  show ?thesis
    using readTime_ceiling [of asciiLower "concat (replicate 238 (units ''a ''))"]
      readTime_ceiling [of asciiLower "concat (replicate 239 (units ''a ''))"]
      readTime_ceiling [of asciiLower "[]"] w [of 238] w [of 239] e
    by simp
qed

text \<open>
  C2. For every text \<open>t\<close>, \<open>wordCount\<close> is the number of maximal runs of code units
  that are not white space in the lower-cased \<open>t\<close>. A text of white space only (the
  empty text is one) has no word, given that lower-casing leaves white space alone.
\<close>

theorem wordCount_maximalRuns:
  "wordCount (processText lc t) = card (maximalRuns (\<lambda>c. \<not> isWhiteSpace c) (lc t))
   \<and> (keepsWhiteSpace lc \<and> list_all isWhiteSpace t \<longrightarrow> wordCount (processText lc t) = 0)"
proof
  show "wordCount (processText lc t) = card (maximalRuns (\<lambda>c. \<not> isWhiteSpace c) (lc t))"
    by (simp only: wordCount_runsFrom runsFrom_card card_maximalRuns)
next
  show "keepsWhiteSpace lc \<and> list_all isWhiteSpace t \<longrightarrow> wordCount (processText lc t) = 0"
  proof
    assume a: "keepsWhiteSpace lc \<and> list_all isWhiteSpace t"
    then have "lc t = t" by (simp add: keepsWhiteSpace_def)
    with a show "wordCount (processText lc t) = 0"
      by (simp add: wordCount_runsFrom runsFrom_white)
  qed
qed

theorem wordCount_maximalRuns_witness:
  "wordCount (processText asciiLower (units ''Hello   world\<newline>\<newline>Foo'')) = 3
   \<and> card (maximalRuns (\<lambda>c. \<not> isWhiteSpace c)
             (asciiLower (units ''Hello   world\<newline>\<newline>Foo''))) = 3
   \<and> keepsWhiteSpace asciiLower
   \<and> list_all isWhiteSpace (units '' \<newline>  '')
   \<and> wordCount (processText asciiLower (units '' \<newline>  '')) = 0
   \<and> wordCount (processText asciiLower []) = 0"
proof -
  have a: "wordCount (processText asciiLower (units ''Hello   world\<newline>\<newline>Foo'')) = 3"
    by code_simp
  have b: "list_all isWhiteSpace (units '' \<newline>  '')"
    by (simp add: units_def isWhiteSpace_def)
  have c: "list_all isWhiteSpace ([] :: jsstring)"
    by simp
  show ?thesis
    using wordCount_maximalRuns [of asciiLower "units ''Hello   world\<newline>\<newline>Foo''"]
      wordCount_maximalRuns [of asciiLower "units '' \<newline>  ''"]
      wordCount_maximalRuns [of asciiLower "[]"]
      a b c keepsWhiteSpace_asciiLower
    by simp
qed

text \<open>
  C9. Computing the metrics of the lower-cased \<open>t\<close> gives the metrics of \<open>t\<close>, field
  by field, wherever lower-casing the lower-cased \<open>t\<close> changes nothing (the runtime's
  case mapping is idempotent).
\<close>

theorem processText_normalized:
  assumes "lc (lc t) = lc t"
  shows "processText lc (lc t) = processText lc t
         \<and> wordCount (processText lc (lc t)) = wordCount (processText lc t)
         \<and> charCount (processText lc (lc t)) = charCount (processText lc t)
         \<and> paragraphCount (processText lc (lc t)) = paragraphCount (processText lc t)
         \<and> readTime (processText lc (lc t)) = readTime (processText lc t)"
  using assms by (simp add: processText_def)

theorem processText_normalized_witness:
  "asciiLower (asciiLower (units ''Hello World'')) = asciiLower (units ''Hello World'')
   \<and> asciiLower (units ''Hello World'') = units ''hello world''
   \<and> processText asciiLower (units ''hello world'') = processText asciiLower (units ''Hello World'')"
proof -
  have l: "asciiLower (units ''Hello World'') = units ''hello world''"
    by (simp add: asciiLower_def units_def)
  have i: "asciiLower (asciiLower (units ''Hello World'')) = asciiLower (units ''Hello World'')"
    by (rule asciiLower_idem)
  from processText_normalized [of asciiLower "units ''Hello World''", OF i]
  have "processText asciiLower (asciiLower (units ''Hello World'')) =
          processText asciiLower (units ''Hello World'')"
    by simp
  then have "processText asciiLower (units ''hello world'') =
          processText asciiLower (units ''Hello World'')"
    by (simp only: l)
  with i l show ?thesis by blast
qed

section \<open>Paragraphs\<close>

lemma isBoundary_iff: "isBoundary b \<longleftrightarrow> (\<exists>w. b = LF # w @ [LF] \<and> list_all isWhiteSpace w)"
proof
  assume b: "isBoundary b"
  then obtain x xs where bx: "b = x # xs" and x: "x = LF" and "xs \<noteq> []"
    by (cases b) (auto simp: isBoundary_def Suc_le_eq)
  then have "xs = butlast xs @ [last xs]" by simp
  moreover from b bx \<open>xs \<noteq> []\<close> have "last xs = LF" "list_all isWhiteSpace (butlast xs)"
    by (auto simp: isBoundary_def)
  ultimately show "\<exists>w. b = LF # w @ [LF] \<and> list_all isWhiteSpace w"
    using bx x by metis
next
  assume "\<exists>w. b = LF # w @ [LF] \<and> list_all isWhiteSpace w"
  then show "isBoundary b"
    by (auto simp: isBoundary_def)
qed

lemma isBoundary_length: "isBoundary b \<Longrightarrow> 2 \<le> length b"
  by (simp add: isBoundary_def)

lemma afterNewlines_set:
  "e \<in> set (afterNewlines xs) \<longleftrightarrow> (\<exists>w. xs = w @ LF # e \<and> list_all isWhiteSpace w)"
proof (induction xs)
  case Nil
  show ?case by simp
next
  case (Cons x xs)
  show ?case
  proof
    assume "e \<in> set (afterNewlines (x # xs))"
    then consider "isWhiteSpace x" "e \<in> set (afterNewlines xs)" | "isWhiteSpace x" "x = LF" "e = xs"
      by (auto split: if_splits)
    then show "\<exists>w. x # xs = w @ LF # e \<and> list_all isWhiteSpace w"
    proof cases
      case 1
      with Cons obtain w where "xs = w @ LF # e" "list_all isWhiteSpace w" by auto
      with 1 have "x # xs = (x # w) @ LF # e \<and> list_all isWhiteSpace (x # w)" by simp
      then show ?thesis by blast
    next
      case 2
      then have "x # xs = [] @ LF # e \<and> list_all isWhiteSpace []" by simp
      then show ?thesis by blast
    qed
  next
    assume "\<exists>w. x # xs = w @ LF # e \<and> list_all isWhiteSpace w"
    then obtain w where w: "x # xs = w @ LF # e" "list_all isWhiteSpace w" by blast
    show "e \<in> set (afterNewlines (x # xs))"
    proof (cases w)
      case Nil
      with w show ?thesis by (simp add: isWhiteSpace_LF)
    next
      case (Cons y ys)
      with w have "xs = ys @ LF # e" "list_all isWhiteSpace ys" "isWhiteSpace x" by auto
      with Cons.IH show ?thesis by auto
    qed
  qed
qed

lemma afterNewlines_sorted:
  "sorted_wrt (\<lambda>a b. length a < length b) (afterNewlines xs) \<and>
   (\<forall>e \<in> set (afterNewlines xs). length e < length xs)"
  by (induction xs) (auto simp: sorted_wrt_append)

lemma afterNewlines_hd_shortest:
  "afterNewlines xs = e # rest \<Longrightarrow> e' \<in> set (afterNewlines xs) \<Longrightarrow> length e \<le> length e'"
  using afterNewlines_sorted [of xs] by auto

text \<open>
  A failed match attempt: no boundary starts the text. A successful one: the longest
  boundary that starts the text was taken.
\<close>

lemma firstMatch_paragraph_None:
  assumes "firstMatch paragraphSeparator s = None"
  shows "\<not> (\<exists>b e. s = b @ e \<and> isBoundary b)"
proof
  assume "\<exists>b e. s = b @ e \<and> isBoundary b"
  then obtain b e where s: "s = b @ e" and b: "isBoundary b" by blast
  from b obtain w where w: "b = LF # w @ [LF]" "list_all isWhiteSpace w"
    by (auto simp: isBoundary_iff)
  with s have "e \<in> set (afterNewlines (w @ LF # e))"
    by (auto simp: afterNewlines_set)
  with s w have "e \<in> set (ends paragraphSeparator s)"
    by (simp add: ends_paragraphSeparator)
  with assms show False
    by (auto simp: firstMatch_def split: list.splits)
qed

lemma firstMatch_paragraph_Some:
  assumes "firstMatch paragraphSeparator s = Some e"
  shows "\<exists>b. s = b @ e \<and> isBoundary b \<and>
           (\<forall>b' e'. s = b' @ e' \<and> isBoundary b' \<longrightarrow> length b' \<le> length b)"
proof -
  from assms obtain rest where en: "ends paragraphSeparator s = e # rest"
    by (auto simp: firstMatch_def split: list.splits)
  then obtain xs where s: "s = LF # xs" and an: "afterNewlines xs = e # rest"
    by (auto simp: ends_paragraphSeparator split: list.splits if_splits)
  from an have "e \<in> set (afterNewlines xs)" by simp
  then obtain w where w: "xs = w @ LF # e" "list_all isWhiteSpace w"
    by (auto simp: afterNewlines_set)
  let ?b = "LF # w @ [LF]"
  have sb: "s = ?b @ e" using s w by simp
  have bb: "isBoundary ?b" using w by (auto simp: isBoundary_iff)
  have "length b' \<le> length ?b" if "s = b' @ e'" "isBoundary b'" for b' e'
  proof -
    from that obtain w' where w': "b' = LF # w' @ [LF]" "list_all isWhiteSpace w'"
      by (auto simp: isBoundary_iff)
    with that s have "xs = w' @ LF # e'" by simp
    with w' have "e' \<in> set (afterNewlines xs)" by (auto simp: afterNewlines_set)
    from afterNewlines_hd_shortest [OF an this] have "length e \<le> length e'" .
    moreover from that sb have "length b' + length e' = length ?b + length e"
      by (metis length_append)
    ultimately show ?thesis by linarith
  qed
  with sb bb show ?thesis by blast
qed

lemma boundaryAt_here:
  "boundaryAt (cur @ s) (length cur) n \<longleftrightarrow> n \<le> length s \<and> isBoundary (take n s)"
  by (simp add: boundaryAt_def)

text \<open>
  The loop of split, started where no boundary begins before \<open>q\<close>, returns the
  segments of the text from \<open>p\<close> on.
\<close>

lemma splitLoop_segments:
  "\<forall>i n. boundaryAt (cur @ s) i n \<longrightarrow> length cur \<le> i \<Longrightarrow>
   segments (cur @ s) (splitLoop paragraphSeparator cur s)"
proof (induction paragraphSeparator cur s rule: splitLoop.induct)
  case (1 cur)
  have "\<not> boundaryAt cur i n" for i n
  proof
    assume b: "boundaryAt cur i n"
    with "1.prems" have "length cur \<le> i" by auto
    moreover from b have "i + n \<le> length cur" "2 \<le> n"
      using isBoundary_length [of "take n (drop i cur)"] by (auto simp: boundaryAt_def)
    ultimately show False by simp
  qed
  then show ?case by (simp add: segments.whole)
next
  case (2 cur c cs)
  let ?s = "c # cs"
  show ?case
  proof (cases "firstMatch paragraphSeparator ?s")
    case None
    have inv: "\<forall>i n. boundaryAt ((cur @ [c]) @ cs) i n \<longrightarrow> length (cur @ [c]) \<le> i"
    proof (intro allI impI)
      fix i n
      assume b: "boundaryAt ((cur @ [c]) @ cs) i n"
      then have b': "boundaryAt (cur @ ?s) i n" by simp
      with "2.prems" have le: "length cur \<le> i" by blast
      have "i \<noteq> length cur"
      proof
        assume "i = length cur"
        with b' have "n \<le> length ?s" "isBoundary (take n ?s)"
          by (simp_all only: boundaryAt_here)
        then have "?s = take n ?s @ drop n ?s \<and> isBoundary (take n ?s)" by simp
        with firstMatch_paragraph_None [OF None] show False by blast
      qed
      with le show "length (cur @ [c]) \<le> i" by simp
    qed
    from "2.hyps"(1) [OF None inv] None show ?thesis by simp
  next
    case (Some e)
    from firstMatch_paragraph_Some [OF Some] obtain b where
      sb: "?s = b @ e" and bb: "isBoundary b" and
      longest: "\<forall>b' e'. ?s = b' @ e' \<and> isBoundary b' \<longrightarrow> length b' \<le> length b"
      by blast
    from sb have len: "length ?s = length b + length e"
      by (metis length_append)
    with isBoundary_length [OF bb] have ne: "length e \<noteq> length ?s" by linarith
    have ih: "segments ([] @ e) (splitLoop paragraphSeparator [] e)"
      using "2.hyps"(3) [OF Some] ne by simp
    have at: "boundaryAt (cur @ ?s) (length cur) (length b)"
      unfolding boundaryAt_here using sb bb len by (simp add: sb)
    have least: "\<forall>i' n'. boundaryAt (cur @ ?s) i' n' \<longrightarrow>
                   length cur \<le> i' \<and> (i' = length cur \<longrightarrow> n' \<le> length b)"
    proof (intro allI impI conjI)
      fix i' n'
      assume b': "boundaryAt (cur @ ?s) i' n'"
      with "2.prems" show "length cur \<le> i'" by blast
      assume "i' = length cur"
      with b' have n: "n' \<le> length ?s" "isBoundary (take n' ?s)"
        by (simp_all only: boundaryAt_here)
      then have "?s = take n' ?s @ drop n' ?s \<and> isBoundary (take n' ?s)" by simp
      with longest have "length (take n' ?s) \<le> length b" by blast
      with n show "n' \<le> length b" by simp
    qed
    have dr: "drop (length cur + length b) (cur @ ?s) = e"
      by (simp add: sb)
    have "segments (cur @ ?s) (take (length cur) (cur @ ?s) # splitLoop paragraphSeparator [] e)"
      using at least ih unfolding dr [symmetric] by (intro segments.cut) simp_all
    with Some ne show ?thesis by simp
  qed
qed

lemma split_segments: "segments s (split paragraphSeparator s)"
proof (cases "s = []")
  case True
  have "\<not> boundaryAt [] i n" for i n
    using isBoundary_length [of "take n (drop i [])"] by (auto simp: boundaryAt_def)
  then have "segments [] [[]]" by (simp add: segments.whole)
  moreover have "firstMatch paragraphSeparator [] = None"
    by (simp add: firstMatch_def ends_paragraphSeparator)
  ultimately show ?thesis using True by (simp add: split_def)
next
  case False
  have "segments ([] @ s) (splitLoop paragraphSeparator [] s)"
    by (rule splitLoop_segments) simp
  with False show ?thesis by (simp add: split_def)
qed

lemma segments_unique: "segments s a \<Longrightarrow> segments s b \<Longrightarrow> a = b"
proof (induction arbitrary: b rule: segments.induct)
  case (whole s)
  from whole.prems whole.hyps show ?case
    by (cases rule: segments.cases) auto
next
  case (cut s i n segs)
  from cut.prems show ?case
  proof (cases rule: segments.cases)
    case whole
    with cut.hyps(1) show ?thesis by blast
  next
    case (cut i' n' segs')
    from cut.hyps(1,2) cut(2,3) have "i = i'" "n = n'"
      by (meson le_antisym)+
    with cut(1,4) cut.IH show ?thesis by simp
  qed
qed

text \<open>A boundary holds two newlines, so a text with fewer has none.\<close>

lemma boundaryAt_two_newlines:
  assumes "boundaryAt s i n"
  shows "2 \<le> length (filter (\<lambda>c. c = LF) s)"
proof -
  from assms have le: "i + n \<le> length s" and b: "isBoundary (take n (drop i s))"
    by (simp_all add: boundaryAt_def)
  from b obtain w where w: "take n (drop i s) = LF # w @ [LF]"
    by (auto simp: isBoundary_iff)
  have "s = take i s @ take n (drop i s) @ drop n (drop i s)"
    by (simp only: append_take_drop_id)
  then have "s = take i s @ (LF # w @ [LF]) @ drop n (drop i s)"
    by (simp only: w)
  then have "length (filter (\<lambda>c. c = LF) s) =
      length (filter (\<lambda>c. c = LF) (take i s @ (LF # w @ [LF]) @ drop n (drop i s)))"
    by simp
  then show ?thesis by simp
qed

lemma paragraphCount_split:
  "paragraphCount (processText lc t) =
     length (filter (\<lambda>p. p \<noteq> []) (split paragraphSeparator (lc t)))"
  by (simp add: processText_def Let_def)

text \<open>
  C7. For every text, the lower-cased text has segments on its blank-line boundaries, and
  \<open>paragraphCount\<close> is the number of non-empty ones. Where the lower-cased text is not
  empty and has no boundary the count is 1, and where it is empty the count is 0, as it
  is for the empty text when lower-casing leaves white space alone.
\<close>

theorem paragraphCount_segments:
  "(\<exists>segs. segments (lc t) segs)
   \<and> (\<forall>segs. segments (lc t) segs \<longrightarrow>
         paragraphCount (processText lc t) = length (filter (\<lambda>p. p \<noteq> []) segs))
   \<and> (lc t \<noteq> [] \<and> (\<forall>i n. \<not> boundaryAt (lc t) i n) \<longrightarrow> paragraphCount (processText lc t) = 1)
   \<and> (lc t = [] \<longrightarrow> paragraphCount (processText lc t) = 0)
   \<and> (keepsWhiteSpace lc \<longrightarrow> paragraphCount (processText lc []) = 0)"
proof -
  have ex: "segments (lc t) (split paragraphSeparator (lc t))"
    by (rule split_segments)
  have all: "paragraphCount (processText lc t) = length (filter (\<lambda>p. p \<noteq> []) segs)"
    if "segments (lc t) segs" for segs
    using segments_unique [OF that ex] by (simp add: paragraphCount_split)
  have one: "paragraphCount (processText lc t) = 1"
    if "lc t \<noteq> []" "\<forall>i n. \<not> boundaryAt (lc t) i n"
    using all [OF segments.whole [OF that(2)]] that(1) by simp
  have none: "paragraphCount (processText lc t) = 0" if "lc t = []"
  proof -
    have "\<forall>i n. \<not> boundaryAt (lc t) i n"
      using that isBoundary_length [of "[]"] by (auto simp: boundaryAt_def)
    from all [OF segments.whole [OF this]] that show ?thesis by simp
  qed
  have empty: "paragraphCount (processText lc []) = 0" if "keepsWhiteSpace lc"
  proof -
    from that have "lc [] = []" by (simp add: keepsWhiteSpace_def)
    moreover have "firstMatch paragraphSeparator [] = None"
      by (simp add: firstMatch_def ends_paragraphSeparator)
    ultimately show ?thesis by (simp add: paragraphCount_split split_def)
  qed
  from ex all one none empty show ?thesis by blast
qed

theorem paragraphCount_segments_witness:
  "(\<exists>segs. segments (asciiLower (units ''Hello   world\<newline>\<newline>Foo'')) segs
           \<and> length (filter (\<lambda>p. p \<noteq> []) segs) = 2)
   \<and> paragraphCount (processText asciiLower (units ''Hello   world\<newline>\<newline>Foo'')) = 2
   \<and> asciiLower (units ''One\<newline>line'') \<noteq> []
   \<and> paragraphCount (processText asciiLower (units ''One\<newline>line'')) = 1
   \<and> asciiLower [] = []
   \<and> paragraphCount (processText asciiLower []) = 0"
proof -
  let ?t = "units ''Hello   world\<newline>\<newline>Foo''"
  let ?u = "units ''One\<newline>line''"
  have two: "paragraphCount (processText asciiLower ?t) = 2"
    by code_simp
  from paragraphCount_segments [of asciiLower ?t] obtain segs where
    "segments (asciiLower ?t) segs"
    "paragraphCount (processText asciiLower ?t) = length (filter (\<lambda>p. p \<noteq> []) segs)"
    by blast
  with two have a: "\<exists>segs. segments (asciiLower ?t) segs
           \<and> length (filter (\<lambda>p. p \<noteq> []) segs) = 2"
    by auto
  have ne: "asciiLower ?u \<noteq> []"
    by (simp add: asciiLower_def units_def)
  have "length (filter (\<lambda>c. c = LF) (asciiLower ?u)) = 1"
    by (simp add: asciiLower_def units_def LF_def)
  with boundaryAt_two_newlines [of "asciiLower ?u"]
  have nb: "\<forall>i n. \<not> boundaryAt (asciiLower ?u) i n"
    by fastforce
  from paragraphCount_segments [of asciiLower ?u] ne nb
  have b: "paragraphCount (processText asciiLower ?u) = 1"
    by blast
  have e: "asciiLower [] = []"
    by (simp add: asciiLower_def)
  from paragraphCount_segments [of asciiLower "[]"] e
  have c: "paragraphCount (processText asciiLower []) = 0"
    by blast
  from a two ne b e c show ?thesis by blast
qed

section \<open>The read time as text\<close>

lemma roundHalfEven_lower: "real_of_int a \<le> q \<Longrightarrow> a \<le> roundHalfEven q"
proof -
  assume "real_of_int a \<le> q"
  then have "a \<le> \<lfloor>q\<rfloor>" by (simp add: le_floor_iff)
  then show ?thesis by (simp add: roundHalfEven_def)
qed

lemma roundHalfEven_upper:
  assumes "q < real_of_int b - 1 / 2"
  shows "roundHalfEven q < b"
proof -
  have f: "real_of_int \<lfloor>q\<rfloor> \<le> q" by simp
  with assms have "real_of_int \<lfloor>q\<rfloor> < real_of_int b" by linarith
  then have lt: "\<lfloor>q\<rfloor> < b" by simp
  show ?thesis
  proof (cases "q - real_of_int \<lfloor>q\<rfloor> < 1 / 2")
    case True
    with lt show ?thesis by (simp add: roundHalfEven_def)
  next
    case False
    with assms have "real_of_int \<lfloor>q\<rfloor> + 1 < real_of_int b" by linarith
    then have "real_of_int (\<lfloor>q\<rfloor> + 1) < real_of_int b" by simp
    then have "\<lfloor>q\<rfloor> + 1 < b" by (simp only: of_int_less_iff)
    with lt show ?thesis by (simp add: roundHalfEven_def)
  qed
qed

lemma pow2_pos: "0 < pow2 e"
  by (simp add: pow2_def)

lemma double_nonneg: "0 \<le> x \<Longrightarrow> 0 \<le> double x"
proof (cases "x = 0")
  case True
  then show ?thesis by (simp add: double_def)
next
  case False
  assume "0 \<le> x"
  with False have x: "0 < x" by simp
  let ?u = "pow2 (exponent \<bar>x\<bar> - 52)"
  have "0 \<le> \<bar>x\<bar> / ?u" using pow2_pos [of "exponent \<bar>x\<bar> - 52"] by simp
  then have "0 \<le> roundHalfEven (\<bar>x\<bar> / ?u)"
    using roundHalfEven_lower [of 0 "\<bar>x\<bar> / ?u"] by simp
  then have "0 \<le> ?u * real_of_int (roundHalfEven (\<bar>x\<bar> / ?u))"
    using pow2_pos [of "exponent \<bar>x\<bar> - 52"] by simp
  with x show ?thesis by (simp add: double_def Let_def)
qed

lemma log2floor_less: "n < 2 ^ Suc b \<Longrightarrow> log2floor n \<le> b"
proof (induction b arbitrary: n)
  case 0
  then show ?case by (simp add: log2floor.simps)
next
  case (Suc b)
  show ?case
  proof (cases "n < 2")
    case True
    then show ?thesis by (simp add: log2floor.simps)
  next
    case False
    from Suc.prems have "n div 2 < 2 ^ Suc b" by simp
    from Suc.IH [OF this] False show ?thesis
      by (subst log2floor.simps) simp
  qed
qed

lemma exponent_le:
  assumes "x < 2 ^ Suc b"
  shows "exponent x \<le> int b"
proof (cases "1 \<le> x")
  case True
  then have "real (nat \<lfloor>x\<rfloor>) \<le> x" by simp
  with assms have "real (nat \<lfloor>x\<rfloor>) < 2 ^ Suc b" by linarith
  then have "real (nat \<lfloor>x\<rfloor>) < real (2 ^ Suc b)" by simp
  then have "nat \<lfloor>x\<rfloor> < 2 ^ Suc b" by (simp only: of_nat_less_iff)
  from log2floor_less [OF this] True show ?thesis by (simp add: exponent_def)
next
  case False
  then show ?thesis by (simp add: exponent_def)
qed

text \<open>
  Rounding the quotient of a whole number below \<open>2^53\<close> by 60 does not move it across
  a whole number: the quotient is a sixtieth at least below the next one, and the doubles
  of its size are less than a thirtieth apart.
\<close>

lemma floor_double_sixtieths:
  assumes "n < 2 ^ 53"
  shows "\<lfloor>double (real n / 60)\<rfloor> = int (n div 60)"
proof (cases "n = 0")
  case True
  then show ?thesis by (simp add: double_def)
next
  case False
  define x where "x = real n / 60"
  define k where "k = n div 60"
  from False have x: "0 < x" by (simp add: x_def)
  have n: "real n = 60 * real k + real (n mod 60)"
    unfolding k_def by (metis mult_div_mod_eq of_nat_add of_nat_mult of_nat_numeral)
  have "real (n mod 60) \<le> 59"
  proof -
    have "n mod 60 < 60" by simp
    then have "n mod 60 \<le> 59" by linarith
    then show ?thesis by (metis of_nat_le_iff of_nat_numeral)
  qed
  with n have hi: "x \<le> real k + 59 / 60" and lo: "real k \<le> x"
    by (simp_all add: x_def)
  have "real n < 2 ^ 53" using assms by (metis of_nat_less_iff of_nat_numeral of_nat_power)
  then have "x < 2 ^ Suc 47" by (simp add: x_def)
  from exponent_le [OF this] have e: "exponent x \<le> 47" by simp
  define N where "N = nat (52 - exponent x)"
  from e have N: "5 \<le> N" and eN: "exponent x - 52 = - int N" by (simp_all add: N_def)
  then have u: "pow2 (exponent x - 52) = 1 / 2 ^ N" by (simp add: pow2_def)
  define q where "q = x * 2 ^ N"
  define r where "r = roundHalfEven q"
  have d: "double x = real_of_int r / 2 ^ N"
    using x by (simp add: double_def u Let_def q_def r_def)
  have "(2::real) ^ 5 \<le> 2 ^ N" using N by (intro power_increasing) simp_all
  then have p32: "(32::real) \<le> 2 ^ N" by simp
  have "real_of_int (int k * 2 ^ N) \<le> q"
    using lo by (simp add: q_def)
  from roundHalfEven_lower [OF this] have rl: "int k * 2 ^ N \<le> r"
    by (simp add: r_def)
  have "q \<le> (real k + 59 / 60) * 2 ^ N"
    unfolding q_def using hi by (intro mult_right_mono) simp_all
  also have "\<dots> = real_of_int ((int k + 1) * 2 ^ N) - 2 ^ N / 60"
    by (simp add: algebra_simps)
  also have "\<dots> < real_of_int ((int k + 1) * 2 ^ N) - 1 / 2"
    using p32 by simp
  finally have "roundHalfEven q < (int k + 1) * 2 ^ N"
    by (rule roundHalfEven_upper)
  then have ru: "r < (int k + 1) * 2 ^ N" by (simp add: r_def)
  have pos: "(0::real) < 2 ^ N" by simp
  from rl have "real_of_int (int k * 2 ^ N) \<le> real_of_int r" by (simp only: of_int_le_iff)
  then have "real k * 2 ^ N \<le> real_of_int r" by simp
  then have a: "real k \<le> real_of_int r / 2 ^ N"
    using pos by (simp add: pos_le_divide_eq)
  from ru have "real_of_int r < real_of_int ((int k + 1) * 2 ^ N)" by (simp only: of_int_less_iff)
  then have "real_of_int r < (real k + 1) * 2 ^ N" by simp
  then have b: "real_of_int r / 2 ^ N < real k + 1"
    using pos by (simp add: pos_divide_less_eq)
  from a b have "\<lfloor>real_of_int r / 2 ^ N\<rfloor> = int k"
    by (simp add: floor_eq_iff)
  then show ?thesis
    by (simp add: d [unfolded x_def] k_def)
qed

lemma jsRem_modulo: "0 \<le> x \<Longrightarrow> 0 < y \<Longrightarrow> jsRem x y = modulo x y"
  by (simp add: jsRem_def modulo_def)

lemma modulo_nonneg: "0 < y \<Longrightarrow> 0 \<le> modulo x y"
proof -
  assume y: "0 < y"
  have "y * real_of_int \<lfloor>x / y\<rfloor> \<le> y * (x / y)"
    using y by (intro mult_left_mono) simp_all
  also have "y * (x / y) = x" using y by simp
  finally show ?thesis by (simp add: modulo_def)
qed

lemma round_nonneg: "0 \<le> x \<Longrightarrow> 0 \<le> round (x::real)"
  by (simp add: round_def)

lemma formatReadTime_nonneg:
  assumes "0 \<le> m"
  shows "formatReadTime m =
     components \<lfloor>double (m / 60)\<rfloor> \<lfloor>modulo m 60\<rfloor> (round (double (modulo m 1 * 60)))"
proof -
  have h: "0 \<le> \<lfloor>double (m / 60)\<rfloor>" using assms double_nonneg [of "m / 60"] by simp
  have r60: "jsRem m 60 = modulo m 60" using assms by (simp add: jsRem_modulo)
  have r1: "jsRem m 1 = modulo m 1" using assms by (simp add: jsRem_modulo)
  have mi: "0 \<le> \<lfloor>modulo m 60\<rfloor>" using modulo_nonneg [of 60 m] by simp
  have se: "0 \<le> round (double (modulo m 1 * 60))"
    using modulo_nonneg [of 1 m] by (intro round_nonneg double_nonneg) simp
  define hh where "hh = \<lfloor>double (m / 60)\<rfloor>"
  define mm where "mm = \<lfloor>modulo m 60\<rfloor>"
  define ss where "ss = round (double (modulo m 1 * 60))"
  from h mi se have nn: "0 \<le> hh" "0 \<le> mm" "0 \<le> ss"
    by (simp_all add: hh_def mm_def ss_def)
  have "formatReadTime m =
     (let parts1 = (if hh > 0
                    then [] @ [toString hh @ '' '' @ (if hh = 1 then ''hour'' else ''hours'')]
                    else []);
          parts2 = (if mm > 0
                    then parts1 @ [toString mm @ '' '' @
                                   (if mm = 1 then ''minute'' else ''minutes'')]
                    else parts1);
          parts3 = (if ss > 0 \<and> hh = 0
                    then parts2 @ [toString ss @ '' '' @
                                   (if ss = 1 then ''second'' else ''seconds'')]
                    else parts2)
      in if length parts3 > 0 then join '', '' parts3 else ''< 1 second'')"
    unfolding formatReadTime_def r60 r1 hh_def mm_def ss_def Let_def ..
  also have "\<dots> = components hh mm ss"
    using nn by (auto simp: Let_def component_def components_def)
  finally show ?thesis
    unfolding hh_def mm_def ss_def .
qed

lemmas number_simps =
  jsRem_def toString_def numberToString_def digits.simps round_def double_def exponent_def
  doublings.simps log2floor.simps pow2_def roundHalfEven_def Let_def

lemma formatReadTime_examples:
  "formatReadTime 0 = ''< 1 second''"
  "formatReadTime 1 = ''1 minute''"
  "formatReadTime 61 = ''1 hour, 1 minute''"
  "formatReadTime 1.5 = ''1 minute, 30 seconds''"
  by (simp_all add: formatReadTime_def number_simps)

lemma modulo_whole:
  "\<lfloor>modulo (real n) 60\<rfloor> = int (n mod 60)"
  "round (double (modulo (real n) 1 * 60)) = 0"
proof -
  have f: "\<lfloor>real n / 60\<rfloor> = int (n div 60)"
    using floor_divide_of_nat_eq [of n 60, where ?'a = real] by simp
  have e: "real n = 60 * real (n div 60) + real (n mod 60)"
    by (metis mult_div_mod_eq of_nat_add of_nat_mult of_nat_numeral)
  have "modulo (real n) 60 = real n - 60 * real (n div 60)"
    unfolding modulo_def f by simp
  with e have "modulo (real n) 60 = real (n mod 60)"
    by linarith
  then show "\<lfloor>modulo (real n) 60\<rfloor> = int (n mod 60)"
    by simp
  show "round (double (modulo (real n) 1 * 60)) = 0"
    by (simp add: modulo_def double_def)
qed

lemma formatReadTime_whole:
  assumes "n < 2 ^ 53"
  shows "formatReadTime (real n) = components (int (n div 60)) (int (n mod 60)) 0"
  using formatReadTime_nonneg [of "real n"] floor_double_sixtieths [OF assms]
  by (simp add: modulo_whole)

text \<open>
  C4. For every number of minutes \<open>m\<close> that is not negative, \<open>formatReadTime m\<close> is
  the text of three components: \<open>< 1 second\<close> when all three are zero, and otherwise
  those that are not zero, joined by a comma in the order hours, minutes, seconds, each
  with its unit in the singular or the plural, the seconds only when the hours are zero.
  The components are computed in double-precision arithmetic: the hours are the floor of
  the double nearest to \<open>m / 60\<close>, the minutes are \<open>floor(m mod 60)\<close>, and the seconds
  are the double nearest to \<open>(m mod 1) * 60\<close> rounded to a whole number, a half
  upwards. For a whole number \<open>n\<close> of minutes below \<open>2^53\<close>, which is what the
  program passes, the rounding changes nothing: the components are the hours
  \<open>n div 60\<close> and the minutes \<open>n mod 60\<close> with no seconds. The four examples of the
  specification come out as stated.
\<close>

theorem formatReadTime_components:
  "(0 \<le> m \<longrightarrow>
      formatReadTime m =
        components \<lfloor>double (m / 60)\<rfloor> \<lfloor>modulo m 60\<rfloor> (round (double (modulo m 1 * 60))))
   \<and> (n < 2 ^ 53 \<longrightarrow>
        formatReadTime (real n) = components (int (n div 60)) (int (n mod 60)) 0)
   \<and> formatReadTime 0 = ''< 1 second''
   \<and> formatReadTime 1 = ''1 minute''
   \<and> formatReadTime 61 = ''1 hour, 1 minute''
   \<and> formatReadTime 1.5 = ''1 minute, 30 seconds''"
  using formatReadTime_nonneg [of m] formatReadTime_whole [of n] formatReadTime_examples
  by blast

theorem formatReadTime_components_witness:
  "(0::real) \<le> 3152519739159347 / 2 ^ 54
   \<and> \<lfloor>double (3152519739159347 / 2 ^ 54 / 60)\<rfloor> = 0
   \<and> \<lfloor>modulo (3152519739159347 / 2 ^ 54) 60\<rfloor> = 0
   \<and> double (modulo (3152519739159347 / 2 ^ 54) 1 * 60) = 21 / 2
   \<and> formatReadTime (3152519739159347 / 2 ^ 54) = ''11 seconds''
   \<and> (0::real) \<le> 61.5
   \<and> \<lfloor>double (61.5 / 60)\<rfloor> = 1 \<and> \<lfloor>modulo 61.5 60\<rfloor> = 1
   \<and> round (double (modulo 61.5 1 * 60)) = 30
   \<and> formatReadTime 61.5 = ''1 hour, 1 minute''
   \<and> (0::real) \<le> 6 * 10 ^ 22
   \<and> \<lfloor>double (6 * 10 ^ 22 / 60)\<rfloor> = 10 ^ 21
   \<and> formatReadTime (6 * 10 ^ 22) = ''1e+21 hours''
   \<and> (120::nat) < 2 ^ 53
   \<and> formatReadTime 120 = ''2 hours''"
proof -
  have a: "\<lfloor>double (3152519739159347 / 2 ^ 54 / 60)\<rfloor> = 0"
    "\<lfloor>modulo (3152519739159347 / 2 ^ 54) 60\<rfloor> = 0"
    "double (modulo (3152519739159347 / 2 ^ 54) 1 * 60) = 21 / 2"
    by (simp_all add: modulo_def number_simps)
  have b: "\<lfloor>double (61.5 / 60)\<rfloor> = 1" "\<lfloor>modulo 61.5 60\<rfloor> = 1"
    "round (double (modulo 61.5 1 * 60)) = 30"
    by (simp_all add: modulo_def number_simps)
  have c: "\<lfloor>double (6 * 10 ^ 22 / 60)\<rfloor> = 10 ^ 21"
    by (simp add: number_simps)
  have "formatReadTime (3152519739159347 / 2 ^ 54) = ''11 seconds''"
    using formatReadTime_components [of "3152519739159347 / 2 ^ 54" 0]
    by (simp add: modulo_def components_def component_def number_simps)
  moreover have "formatReadTime 61.5 = ''1 hour, 1 minute''"
    using formatReadTime_components [of "61.5" 0]
    by (simp add: modulo_def components_def component_def number_simps)
  moreover have "formatReadTime (6 * 10 ^ 22) = ''1e+21 hours''"
    using formatReadTime_components [of "6 * 10 ^ 22" 0]
    by (simp add: modulo_def components_def component_def number_simps stripZeros_def)
  moreover have "formatReadTime 120 = ''2 hours''"
  proof -
    have "(120::nat) < 2 ^ 53" by simp
    with formatReadTime_components [of 0 120]
    have "formatReadTime (real 120) = components (int (120 div 60)) (int (120 mod 60)) 0"
      by blast
    then show ?thesis
      by (simp add: components_def component_def toString_def numberToString_def digits.simps)
  qed
  ultimately show ?thesis using a b c by simp
qed

text \<open>
  Without the rounding of the product the components differ from what
  \<open>formatReadTime\<close> prints. The double nearest to \<open>0.175\<close> is
  \<open>3152519739159347 / 2^54\<close>, a little less than \<open>0.175\<close>. Sixty times it is less
  than \<open>10.5\<close>, which rounds to 10 seconds; the double nearest to the product is
  \<open>10.5\<close> itself, and \<open>formatReadTime\<close> prints 11 seconds.
\<close>

theorem formatReadTime_exact_counterexample:
  "double 0.175 = 3152519739159347 / 2 ^ 54
   \<and> (0::real) \<le> 3152519739159347 / 2 ^ 54
   \<and> components \<lfloor>3152519739159347 / 2 ^ 54 / 60 :: real\<rfloor>
        \<lfloor>modulo (3152519739159347 / 2 ^ 54) 60\<rfloor>
        (round (modulo (3152519739159347 / 2 ^ 54) 1 * 60)) = ''10 seconds''
   \<and> formatReadTime (3152519739159347 / 2 ^ 54) = ''11 seconds''"
  by (simp add: formatReadTime_def modulo_def components_def component_def number_simps)

section \<open>The totals\<close>

lemma foldl_add: "foldl (\<lambda>sum r. sum + f r) a rs = a + sum_list (map f rs)"
  for a :: "'a :: monoid_add"
  by (induction rs arbitrary: a) (simp_all add: add.assoc)

lemma totals_sum_list:
  "totalWords rs = sum_list (map wordCount rs)"
  "totalChars rs = sum_list (map charCount rs)"
  "totalParas rs = sum_list (map paragraphCount rs)"
  "totalTime rs = sum_list (map readTime rs)"
  by (simp_all add: totalWords_def totalChars_def totalParas_def totalTime_def foldl_add)

lemma fileLines_no_totals: "\<not> hasTotals (fileLines rs r)"
  by (auto simp: hasTotals_def fileLines_def)

lemma hasTotals_append: "hasTotals (a @ b) \<longleftrightarrow> hasTotals a \<or> hasTotals b"
  by (auto simp: hasTotals_def)

lemma hasTotals_concat: "hasTotals (concat xss) \<longleftrightarrow> (\<exists>xs \<in> set xss. hasTotals xs)"
  by (auto simp: hasTotals_def)

lemma hasTotals_report: "hasTotals (report totalOnly rs) \<longleftrightarrow> 1 < length rs"
proof -
  have "\<not> hasTotals (concat (map (fileLines rs) rs))"
    by (simp add: hasTotals_concat fileLines_no_totals)
  then show ?thesis
    by (auto simp: report_def hasTotals_append) (auto simp: hasTotals_def)
qed

lemma hasTotals_processFiles:
  "hasTotals (stdout (processFiles rt recursive totalOnly files)) \<longleftrightarrow>
     1 < length (analysed (processFiles rt recursive totalOnly files))"
proof (cases "results (collect rt recursive files) = []")
  case True
  then show ?thesis by (simp add: processFiles_def Let_def hasTotals_def)
next
  case False
  then show ?thesis by (simp add: processFiles_def Let_def hasTotals_report)
qed

text \<open>
  C3. For every list of results, the report has a totals block exactly when the list has
  more than one entry (so has the output of \<open>processFiles\<close>). The block follows the
  file stats and gives the number of files, the sums of the word, character and
  paragraph counts, and \<open>formatReadTime\<close> applied once to the sum of the \<open>readTime\<close>
  values.
\<close>

theorem report_totals:
  "(hasTotals (report totalOnly rs) \<longleftrightarrow> 1 < length rs)
   \<and> (hasTotals (stdout (processFiles rt recursive totalOnly files)) \<longleftrightarrow>
        1 < length (analysed (processFiles rt recursive totalOnly files)))
   \<and> (1 < length rs \<longrightarrow>
        report totalOnly rs =
          (if totalOnly then [] else concat (map (fileLines rs) rs)) @
          [(if totalOnly then [] else [CHR 0x0A]) @ ''totals:'',
           ''  files: '' @ formatNumber (length rs),
           ''  words: '' @ formatNumber (sum_list (map wordCount rs)),
           ''  characters: '' @ formatNumber (sum_list (map charCount rs)),
           ''  paragraphs: '' @ formatNumber (sum_list (map paragraphCount rs)),
           ''  total read time: '' @ formatReadTime (sum_list (map readTime rs))])
   \<and> (\<not> 1 < length rs \<longrightarrow>
        report totalOnly rs = (if totalOnly then [] else concat (map (fileLines rs) rs)))"
proof (intro conjI)
  show "hasTotals (report totalOnly rs) \<longleftrightarrow> 1 < length rs"
    by (rule hasTotals_report)
  show "hasTotals (stdout (processFiles rt recursive totalOnly files)) \<longleftrightarrow>
        1 < length (analysed (processFiles rt recursive totalOnly files))"
    by (rule hasTotals_processFiles)
  show "1 < length rs \<longrightarrow>
        report totalOnly rs =
          (if totalOnly then [] else concat (map (fileLines rs) rs)) @
          [(if totalOnly then [] else [CHR 0x0A]) @ ''totals:'',
           ''  files: '' @ formatNumber (length rs),
           ''  words: '' @ formatNumber (sum_list (map wordCount rs)),
           ''  characters: '' @ formatNumber (sum_list (map charCount rs)),
           ''  paragraphs: '' @ formatNumber (sum_list (map paragraphCount rs)),
           ''  total read time: '' @ formatReadTime (sum_list (map readTime rs))]"
    by (simp add: report_def totals_sum_list)
  show "\<not> 1 < length rs \<longrightarrow>
        report totalOnly rs = (if totalOnly then [] else concat (map (fileLines rs) rs))"
    by (simp add: report_def)
qed

theorem report_totals_witness:
  "report False
     [\<lparr>wordCount = 1200, charCount = 7000, paragraphCount = 12, readTime = 6,
        path = Rel [''a.txt'']\<rparr>,
      \<lparr>wordCount = 34, charCount = 200, paragraphCount = 3, readTime = 1,
        path = Rel [''docs'', ''b.md'']\<rparr>] =
     [[], ''- a.txt'', ''  words: 1,200'', ''  characters: 7,000'', ''  paragraphs: 12'',
      ''  read time: 6 minutes'',
      [], ''- docs/b.md'', ''  words: 34'', ''  characters: 200'', ''  paragraphs: 3'',
      ''  read time: 1 minute'',
      CHR 0x0A # ''totals:'', ''  files: 2'', ''  words: 1,234'', ''  characters: 7,200'',
      ''  paragraphs: 15'', ''  total read time: 7 minutes'']
   \<and> hasTotals (report False
     [\<lparr>wordCount = 1200, charCount = 7000, paragraphCount = 12, readTime = 6,
        path = Rel [''a.txt'']\<rparr>,
      \<lparr>wordCount = 34, charCount = 200, paragraphCount = 3, readTime = 1,
        path = Rel [''docs'', ''b.md'']\<rparr>])
   \<and> \<not> hasTotals (report False
     [\<lparr>wordCount = 1200, charCount = 7000, paragraphCount = 12, readTime = 6,
        path = Rel [''a.txt'']\<rparr>])
   \<and> report False
     [\<lparr>wordCount = 1200, charCount = 7000, paragraphCount = 12, readTime = 6,
        path = Rel [''a.txt'']\<rparr>] =
     [''- a.txt'', ''  words: 1,200'', ''  characters: 7,000'', ''  paragraphs: 12'',
      ''  read time: 6 minutes'']"
proof -
  let ?a = "\<lparr>wordCount = 1200, charCount = 7000, paragraphCount = 12, readTime = 6,
        path = Rel [''a.txt'']\<rparr>"
  let ?b = "\<lparr>wordCount = 34, charCount = 200, paragraphCount = 3, readTime = 1,
        path = Rel [''docs'', ''b.md'']\<rparr>"
  have n: "formatNumber 1200 = ''1,200''" "formatNumber 7000 = ''7,000''"
    "formatNumber 12 = ''12''" "formatNumber 34 = ''34''" "formatNumber 200 = ''200''"
    "formatNumber 3 = ''3''" "formatNumber 2 = ''2''" "formatNumber 1234 = ''1,234''"
    "formatNumber 7200 = ''7,200''" "formatNumber 15 = ''15''"
    "formatNumber (Suc (Suc 0)) = ''2''"
    by (simp_all add: formatNumber.simps digits.simps threeDigits_def)
  have t: "formatReadTime 6 = ''6 minutes''" "formatReadTime 1 = ''1 minute''"
    "formatReadTime 7 = ''7 minutes''"
    by (simp_all add: formatReadTime_def number_simps)
  let ?rs = "[?a, ?b]"
  have "1 < length ?rs" by simp
  with report_totals [of False ?rs demo False "[]"]
  have "report False ?rs =
          (if False then [] else concat (map (fileLines ?rs) ?rs)) @
          [(if False then [] else [CHR 0x0A]) @ ''totals:'',
           ''  files: '' @ formatNumber (length ?rs),
           ''  words: '' @ formatNumber (sum_list (map wordCount ?rs)),
           ''  characters: '' @ formatNumber (sum_list (map charCount ?rs)),
           ''  paragraphs: '' @ formatNumber (sum_list (map paragraphCount ?rs)),
           ''  total read time: '' @ formatReadTime (sum_list (map readTime ?rs))]"
    by blast
  also have "\<dots> =
     [[], ''- a.txt'', ''  words: 1,200'', ''  characters: 7,000'', ''  paragraphs: 12'',
      ''  read time: 6 minutes'',
      [], ''- docs/b.md'', ''  words: 34'', ''  characters: 200'', ''  paragraphs: 3'',
      ''  read time: 1 minute'',
      CHR 0x0A # ''totals:'', ''  files: 2'', ''  words: 1,234'', ''  characters: 7,200'',
      ''  paragraphs: 15'', ''  total read time: 7 minutes'']"
    by (simp add: fileLines_def n t)
  finally have two: "report False [?a, ?b] =
     [[], ''- a.txt'', ''  words: 1,200'', ''  characters: 7,000'', ''  paragraphs: 12'',
      ''  read time: 6 minutes'',
      [], ''- docs/b.md'', ''  words: 34'', ''  characters: 200'', ''  paragraphs: 3'',
      ''  read time: 1 minute'',
      CHR 0x0A # ''totals:'', ''  files: 2'', ''  words: 1,234'', ''  characters: 7,200'',
      ''  paragraphs: 15'', ''  total read time: 7 minutes'']" .
  have "\<not> 1 < length [?a]" by simp
  with report_totals [of False "[?a]" demo False "[]"]
  have "report False [?a] = (if False then [] else concat (map (fileLines [?a]) [?a]))"
    by blast
  also have "\<dots> =
     [''- a.txt'', ''  words: 1,200'', ''  characters: 7,000'', ''  paragraphs: 12'',
      ''  read time: 6 minutes'']"
    by (simp add: fileLines_def n t)
  finally have one: "report False [?a] =
     [''- a.txt'', ''  words: 1,200'', ''  characters: 7,000'', ''  paragraphs: 12'',
      ''  read time: 6 minutes'']" .
  have h2: "hasTotals (report False [?a, ?b])"
    using report_totals [of False "[?a, ?b]" demo False "[]"] \<open>1 < length ?rs\<close> by blast
  have h1: "\<not> hasTotals (report False [?a])"
    using report_totals [of False "[?a]" demo False "[]"] \<open>\<not> 1 < length [?a]\<close> by blast
  from two one h2 h1 show ?thesis by blast
qed

text \<open>
  C8. With \<open>totalOnly\<close> set and exactly one result the report is empty: no file
  stats and no totals are printed, by \<open>processFiles\<close> either.
\<close>

theorem report_totalOnly_single:
  "(length rs = 1 \<longrightarrow> report True rs = [] \<and> \<not> hasTotals (report True rs))
   \<and> (length (analysed (processFiles rt recursive True files)) = 1 \<longrightarrow>
        stdout (processFiles rt recursive True files) = [])"
proof -
  have a: "report True rs = []" if "length rs = 1"
    using that by (simp add: report_def)
  have b: "stdout (processFiles rt recursive True files) = []"
    if "length (analysed (processFiles rt recursive True files)) = 1"
  proof -
    from that have l: "length (results (collect rt recursive files)) = 1"
      by (simp add: processFiles_def Let_def split: if_splits)
    then have "results (collect rt recursive files) \<noteq> []"
      by auto
    with l show ?thesis
      by (simp add: processFiles_def Let_def report_def)
  qed
  from a b show ?thesis by (auto simp: hasTotals_def)
qed

theorem report_totalOnly_single_witness:
  "length (analysed (processFiles demo False True [Rel [''notes.csv'']])) = 1
   \<and> map path (analysed (processFiles demo False True [Rel [''notes.csv'']])) =
        [Rel [''notes.csv'']]
   \<and> stdout (processFiles demo False True [Rel [''notes.csv'']]) = []
   \<and> stdout (processFiles demo False False [Rel [''notes.csv'']]) =
        [''- notes.csv'', ''  words: 3'', ''  characters: 18'', ''  paragraphs: 2'',
         ''  read time: 1 minute'']"
proof -
  have a: "map path (analysed (processFiles demo False True [Rel [''notes.csv'']])) =
        [Rel [''notes.csv'']]"
    by code_simp
  then have l: "length (analysed (processFiles demo False True [Rel [''notes.csv'']])) = 1"
    by (metis length_map length_Cons list.size(3) One_nat_def)
  have f: "stdout (processFiles demo False False [Rel [''notes.csv'']]) =
        [''- notes.csv'', ''  words: 3'', ''  characters: 18'', ''  paragraphs: 2'',
         ''  read time: 1 minute'']"
    by code_simp
  from report_totalOnly_single [of _ demo False "[Rel [''notes.csv'']]"] l
  have "stdout (processFiles demo False True [Rel [''notes.csv'']]) = []"
    by blast
  with a l f show ?thesis by blast
qed

section \<open>Resolving and processing the arguments\<close>
lemma endsWith_iff: "endsWith suffix s \<longleftrightarrow> (\<exists>stem. s = stem @ suffix)"
proof
  assume "endsWith suffix s"
  then have "s = take (length s - length suffix) s @ suffix"
    by (metis append_take_drop_id endsWith_def)
  then show "\<exists>stem. s = stem @ suffix" ..
next
  assume "\<exists>stem. s = stem @ suffix"
  then show "endsWith suffix s" by (auto simp: endsWith_def)
qed

lemma starts_with:
  "length l \<le> length s \<and> take (length l) s = l \<and> Q (drop (length l) s) \<longleftrightarrow>
     (\<exists>r. s = l @ r \<and> Q r)"
proof
  assume a: "length l \<le> length s \<and> take (length l) s = l \<and> Q (drop (length l) s)"
  have "s = take (length l) s @ drop (length l) s" by simp
  with a have "s = l @ drop (length l) s" by simp
  with a show "\<exists>r. s = l @ r \<and> Q r" by blast
next
  assume "\<exists>r. s = l @ r \<and> Q r"
  then obtain r where "s = l @ r" "Q r" by blast
  then show "length l \<le> length s \<and> take (length l) s = l \<and> Q (drop (length l) s)"
    by simp
qed

lemma matchName_Lit:
  "matchName (Lit l # as) s \<longleftrightarrow> (\<exists>r. s = l @ r \<and> matchName as r)"
  unfolding matchName.simps by (rule starts_with)

lemma matchName_OneOf:
  "matchName (OneOf ls # as) s \<longleftrightarrow> (\<exists>l \<in> set ls. \<exists>r. s = l @ r \<and> matchName as r)"
  unfolding matchName.simps list_ex_iff starts_with ..

lemma matchName_AnyChars:
  "matchName (AnyChars # as) s \<longleftrightarrow> (\<exists>u r. s = u @ r \<and> matchName as r)"
proof
  assume "matchName (AnyChars # as) s"
  then obtain k where "matchName as (drop k s)"
    unfolding matchName.simps list_ex_iff by blast
  then have "s = take k s @ drop k s \<and> matchName as (drop k s)" by simp
  then show "\<exists>u r. s = u @ r \<and> matchName as r" by blast
next
  assume "\<exists>u r. s = u @ r \<and> matchName as r"
  then obtain u r where s: "s = u @ r" and m: "matchName as r" by blast
  then have "length u \<in> set [0..<Suc (length s)]" "matchName as (drop (length u) s)"
    by simp_all
  then show "matchName (AnyChars # as) s"
    unfolding matchName.simps list_ex_iff by blast
qed

lemma matchName_extensions:
  "matchName [AnyChars, Lit ''.'', OneOf [''txt'', ''md'', ''html'', ''json'']] n \<longleftrightarrow>
     allowedExtension n"
proof -
  have "matchName [AnyChars, Lit ''.'', OneOf [''txt'', ''md'', ''html'', ''json'']] n \<longleftrightarrow>
        (\<exists>u. \<exists>l \<in> set [''txt'', ''md'', ''html'', ''json'']. n = u @ ''.'' @ l)"
    unfolding matchName_AnyChars matchName_Lit matchName_OneOf matchName.simps(1)
  proof
    assume "\<exists>u r. n = u @ r \<and> (\<exists>ra. r = ''.'' @ ra \<and>
              (\<exists>l \<in> set [''txt'', ''md'', ''html'', ''json'']. \<exists>r. ra = l @ r \<and> r = []))"
    then obtain u r ra l r' where "n = u @ r" "r = ''.'' @ ra"
      "l \<in> set [''txt'', ''md'', ''html'', ''json'']" "ra = l @ r'" "r' = []"
      by blast
    then have "n = u @ ''.'' @ l" "l \<in> set [''txt'', ''md'', ''html'', ''json'']"
      by simp_all
    then show "\<exists>u. \<exists>l \<in> set [''txt'', ''md'', ''html'', ''json'']. n = u @ ''.'' @ l"
      by blast
  next
    assume "\<exists>u. \<exists>l \<in> set [''txt'', ''md'', ''html'', ''json'']. n = u @ ''.'' @ l"
    then obtain u l where l: "l \<in> set [''txt'', ''md'', ''html'', ''json'']" "n = u @ ''.'' @ l"
      by blast
    then have "n = u @ (''.'' @ l) \<and> ''.'' @ l = ''.'' @ l \<and> l = l @ [] \<and> ([]::string) = []"
      by simp
    with l(1) show "\<exists>u r. n = u @ r \<and> (\<exists>ra. r = ''.'' @ ra \<and>
              (\<exists>l \<in> set [''txt'', ''md'', ''html'', ''json'']. \<exists>r. ra = l @ r \<and> r = []))"
      by blast
  qed
  also have "\<dots> \<longleftrightarrow> allowedExtension n"
    unfolding allowedExtension_def endsWith_iff by auto
  finally show ?thesis .
qed


declare matchName.simps [simp del]

lemma matchPath_flat:
  "matchPath flatPattern rel \<longleftrightarrow>
     (\<exists>n. rel = [n] \<and> \<not> hidden n \<and> allowedExtension n)"
  unfolding flatPattern_def
  by (cases rel) (auto simp: matchName_extensions)

lemma matchPath_recursive:
  "matchPath recursivePattern rel \<longleftrightarrow>
     rel \<noteq> [] \<and> (\<forall>n \<in> set rel. \<not> hidden n) \<and> allowedExtension (last rel)"
  unfolding recursivePattern_def
proof (induction rel)
  case Nil
  show ?case by simp
next
  case (Cons n ns)
  show ?case
  proof (cases ns)
    case Nil
    then show ?thesis by (simp add: matchName_extensions)
  next
    case (Cons m ms)
    with Cons.IH show ?thesis by (auto simp: matchName_extensions)
  qed
qed


lemma processFile_Inr:
  assumes "processFile rt p = Inr s"
  shows "path s = p"
    and "readTime s = real_of_int \<lceil>real (wordCount s) / 238\<rceil>"
    and "exists rt p"
proof -
  from assms obtain content where
    s: "s = \<lparr>wordCount = wordCount (processText (toLowerCase rt) content),
             charCount = charCount (processText (toLowerCase rt) content),
             paragraphCount = paragraphCount (processText (toLowerCase rt) content),
             readTime = readTime (processText (toLowerCase rt) content), path = p\<rparr>"
    and e: "exists rt p"
    by (auto simp: processFile_def Let_def split: if_splits sum.splits)
  from s show "path s = p" by simp
  from s show "readTime s = real_of_int \<lceil>real (wordCount s) / 238\<rceil>"
    by (simp add: readTime_processText)
  from e show "exists rt p" .
qed

lemma tryFile_results:
  "results (tryFile rt st f) = results st @ succeeded rt [f]"
  by (simp add: tryFile_def succeeded_def split: sum.splits)

lemma tryFile_errors:
  "errors (tryFile rt st f) = errors st @ failed rt [f]"
  by (simp add: tryFile_def failed_def split: sum.splits)

lemma succeeded_append: "succeeded rt (xs @ ys) = succeeded rt xs @ succeeded rt ys"
  by (simp add: succeeded_def)

lemma failed_append: "failed rt (xs @ ys) = failed rt xs @ failed rt ys"
  by (simp add: failed_def)

lemma foldl_tryFile:
  "results (foldl (tryFile rt) st found) = results st @ succeeded rt found
   \<and> errors (foldl (tryFile rt) st found) = errors st @ failed rt found"
proof (induction found arbitrary: st)
  case Nil
  show ?case by (simp add: succeeded_def failed_def)
next
  case (Cons f found)
  have "succeeded rt (f # found) = succeeded rt [f] @ succeeded rt found"
    "failed rt (f # found) = failed rt [f] @ failed rt found"
    by (simp_all add: succeeded_def failed_def)
  with Cons [of "tryFile rt st f"] show ?case
    by (simp add: tryFile_results tryFile_errors)
qed

text \<open>What one argument adds to the results and to the errors.\<close>

lemma processPath_adds:
  "results (processPath rt recursive st p) = results st @ results (collect rt recursive [p])
   \<and> errors (processPath rt recursive st p) = errors st @ errors (collect rt recursive [p])"
proof (cases "exists rt p")
  case True
  then show ?thesis
    by (simp add: collect_def processPath_def tryFile_results tryFile_errors)
next
  case False
  then show ?thesis
    by (simp add: collect_def processPath_def foldl_tryFile split: sum.splits)
qed

lemma foldl_processPath:
  "results (foldl (processPath rt recursive) st files) =
     results st @ concat (map (\<lambda>p. results (collect rt recursive [p])) files)
   \<and> errors (foldl (processPath rt recursive) st files) =
     errors st @ concat (map (\<lambda>p. errors (collect rt recursive [p])) files)"
proof (induction files arbitrary: st)
  case Nil
  show ?case by simp
next
  case (Cons p files)
  from Cons [of "processPath rt recursive st p"] processPath_adds [of rt recursive st p]
  show ?case by simp
qed

lemma collect_per_path:
  "results (collect rt recursive files) =
     concat (map (\<lambda>p. results (collect rt recursive [p])) files)"
  "errors (collect rt recursive files) =
     concat (map (\<lambda>p. errors (collect rt recursive [p])) files)"
  using foldl_processPath [of rt recursive "\<lparr>results = [], errors = []\<rparr>" files]
  by (simp_all add: collect_def)

lemma collect_single:
  "collect rt recursive [p] =
     (if exists rt p
      then \<lparr>results = succeeded rt [p], errors = failed rt [p]\<rparr>
      else case scan (if recursive then recursivePattern else flatPattern) rt p of
             Inl err \<Rightarrow> \<lparr>results = [], errors = [(p, err)]\<rparr>
           | Inr found \<Rightarrow> \<lparr>results = succeeded rt found, errors = failed rt found\<rparr>)"
proof -
  have eq: "st = \<lparr>results = results st, errors = errors st\<rparr>" for st :: collected
    by simp
  show ?thesis
  proof (cases "exists rt p")
    case True
    then show ?thesis
      by (subst eq) (simp add: collect_def processPath_def tryFile_results tryFile_errors)
  next
    case False
    then show ?thesis
      by (subst eq) (simp add: collect_def processPath_def foldl_tryFile split: sum.splits)
  qed
qed

lemma processFiles_fields:
  "analysed (processFiles rt recursive totalOnly files) = results (collect rt recursive files)"
  "stderr (processFiles rt recursive totalOnly files) = errors (collect rt recursive files)"
  "exitCode (processFiles rt recursive totalOnly files) = 0"
  by (simp_all add: processFiles_def Let_def)


lemma succeeded_source:
  "r \<in> set (succeeded rt found) \<Longrightarrow> \<exists>f \<in> set found. processFile rt f = Inr r"
  by (auto simp: succeeded_def split: sum.splits)

lemma collect_source:
  assumes "r \<in> set (results (collect rt recursive files))"
  shows "\<exists>f. processFile rt f = Inr r"
proof -
  from assms obtain p where "r \<in> set (results (collect rt recursive [p]))"
    by (auto simp: collect_per_path(1) [of rt recursive files])
  then show ?thesis
    by (auto simp: collect_single dest: succeeded_source split: if_splits sum.splits)
qed

lemma ceiling_sum_le:
  "real_of_int \<lceil>real (sum_list (map f rs)) / 238\<rceil>
     \<le> sum_list (map (\<lambda>r. real_of_int \<lceil>real (f r) / 238\<rceil>) rs)"
proof (induction rs)
  case Nil
  show ?case by simp
next
  case (Cons r rs)
  have "\<lceil>real (f r + sum_list (map f rs)) / 238\<rceil>
          = \<lceil>real (f r) / 238 + real (sum_list (map f rs)) / 238\<rceil>"
    by (simp add: add_divide_distrib)
  also have "\<dots> \<le> \<lceil>real (f r) / 238\<rceil> + \<lceil>real (sum_list (map f rs)) / 238\<rceil>"
    by (rule ceiling_add_le)
  finally have "real_of_int \<lceil>real (f r + sum_list (map f rs)) / 238\<rceil>
          \<le> real_of_int \<lceil>real (f r) / 238\<rceil>
            + real_of_int \<lceil>real (sum_list (map f rs)) / 238\<rceil>"
    by (metis of_int_add of_int_le_iff)
  with Cons show ?case by simp
qed

lemma readText_exists: "readText rt f = Inr content \<Longrightarrow> exists rt f"
  by (auto simp: readText_def exists_def split: option.splits node.splits)

lemma succeeded_one: "succeeded rt [f] = statsOfFile rt f"
proof (cases "readText rt f")
  case (Inl err)
  then show ?thesis
    by (simp add: succeeded_def statsOfFile_def processFile_def)
next
  case (Inr content)
  with readText_exists [OF Inr] show ?thesis
    by (simp add: succeeded_def statsOfFile_def processFile_def Let_def)
qed

lemma succeeded_statsOfFile: "succeeded rt found = concat (map (statsOfFile rt) found)"
proof (induction found)
  case Nil
  show ?case by (simp add: succeeded_def)
next
  case (Cons f found)
  have "succeeded rt (f # found) = succeeded rt [f] @ succeeded rt found"
    by (simp add: succeeded_def)
  with Cons show ?case by (simp add: succeeded_one)
qed

lemma failed_one: "map fst (failed rt [f]) = (if isl (readText rt f) then [f] else [])"
proof (cases "readText rt f")
  case (Inl err)
  then show ?thesis
    by (simp add: failed_def processFile_def)
next
  case (Inr content)
  with readText_exists [OF Inr] show ?thesis
    by (simp add: failed_def processFile_def Let_def)
qed

lemma failed_paths: "map fst (failed rt found) = filter (\<lambda>f. isl (readText rt f)) found"
proof (induction found)
  case Nil
  show ?case by (simp add: failed_def)
next
  case (Cons f found)
  have "failed rt (f # found) = failed rt [f] @ failed rt found"
    by (simp add: failed_def)
  then have "map fst (failed rt (f # found)) = map fst (failed rt [f]) @ map fst (failed rt found)"
    by simp
  with Cons show ?case by (simp add: failed_one)
qed

lemma filesUnder_Dir_nonempty: "rel \<in> set (filesUnder (Dir es)) \<Longrightarrow> rel \<noteq> []"
  by auto

lemma matchPath_patterns:
  assumes "rel \<noteq> []"
  shows "matchPath (if recursive then recursivePattern else flatPattern) rel \<longleftrightarrow>
     (\<forall>n \<in> set rel. \<not> hidden n) \<and> allowedExtension (last rel) \<and>
     (recursive \<or> length rel = 1)"
proof (cases recursive)
  case True
  with assms show ?thesis by (simp add: matchPath_recursive)
next
  case False
  have "(\<exists>n. rel = [n] \<and> \<not> hidden n \<and> allowedExtension n) \<longleftrightarrow>
        (\<forall>n \<in> set rel. \<not> hidden n) \<and> allowedExtension (last rel) \<and> length rel = 1"
    by (cases rel) auto
  with False show ?thesis by (simp add: matchPath_flat)
qed

lemma exists_Dir: "lookup (root rt) (resolve rt p) = Some (Dir es) \<Longrightarrow> \<not> exists rt p"
  by (simp add: exists_def)

lemma descends_patterns: "descends (if recursive then recursivePattern else flatPattern) = recursive"
  by (simp add: descends_def recursivePattern_def flatPattern_def)


lemma scan_Dir:
  assumes "lookup (root rt) (resolve rt p) = Some (Dir es)"
  shows "listable recursive (Dir es) \<Longrightarrow>
           \<exists>found. scan (if recursive then recursivePattern else flatPattern) rt p = Inr found
                  \<and> set found = expansion (resolve rt p) es recursive"
    and "\<not> listable recursive (Dir es) \<Longrightarrow>
           scan (if recursive then recursivePattern else flatPattern) rt p = Inl ScanFailed"
proof -
  let ?g = "if recursive then recursivePattern else flatPattern"
  let ?found = "map (\<lambda>rel. Abs (resolve rt p @ rel)) (filter (matchPath ?g) (filesUnder (Dir es)))"
  show "\<exists>found. scan ?g rt p = Inr found \<and> set found = expansion (resolve rt p) es recursive"
    if "listable recursive (Dir es)"
  proof -
    from assms that have sc: "scan ?g rt p = Inr ?found"
      by (simp add: scan_def descends_patterns del: listable.simps)
    have "set ?found =
        (\<lambda>rel. Abs (resolve rt p @ rel)) ` {rel \<in> set (filesUnder (Dir es)). matchPath ?g rel}"
      by (simp del: filesUnder.simps)
    also have "{rel \<in> set (filesUnder (Dir es)). matchPath ?g rel} =
        {rel \<in> set (filesUnder (Dir es)).
           (\<forall>n \<in> set rel. \<not> hidden n) \<and> allowedExtension (last rel) \<and>
           (recursive \<or> length rel = 1)}"
      using matchPath_patterns [OF filesUnder_Dir_nonempty, of _ es recursive] by blast
    finally have "set ?found = expansion (resolve rt p) es recursive"
      by (simp only: expansion_def)
    with sc show ?thesis by blast
  qed
  show "scan ?g rt p = Inl ScanFailed" if "\<not> listable recursive (Dir es)"
    using assms that by (simp add: scan_def descends_patterns del: listable.simps)
qed

lemma collect_file:
  assumes "exists rt p"
  shows "results (collect rt recursive [p]) = statsOfFile rt p"
    and "errors (collect rt recursive [p]) =
           (case readText rt p of Inl err \<Rightarrow> [(p, err)] | Inr content \<Rightarrow> [])"
  using assms
  by (simp_all add: collect_single succeeded_one failed_def processFile_def Let_def
      split: sum.splits)

lemma collect_directory:
  assumes "lookup (root rt) (resolve rt p) = Some (Dir es)"
  shows "listable recursive (Dir es) \<Longrightarrow>
           \<exists>found. scan (if recursive then recursivePattern else flatPattern) rt p = Inr found
             \<and> set found = expansion (resolve rt p) es recursive
             \<and> results (collect rt recursive [p]) = concat (map (statsOfFile rt) found)
             \<and> map fst (errors (collect rt recursive [p])) =
                 filter (\<lambda>f. isl (readText rt f)) found"
    and "\<not> listable recursive (Dir es) \<Longrightarrow>
           scan (if recursive then recursivePattern else flatPattern) rt p = Inl ScanFailed
           \<and> results (collect rt recursive [p]) = []
           \<and> errors (collect rt recursive [p]) = [(p, ScanFailed)]"
proof -
  let ?g = "if recursive then recursivePattern else flatPattern"
  note ne = exists_Dir [OF assms]
  show "\<exists>found. scan ?g rt p = Inr found
             \<and> set found = expansion (resolve rt p) es recursive
             \<and> results (collect rt recursive [p]) = concat (map (statsOfFile rt) found)
             \<and> map fst (errors (collect rt recursive [p])) =
                 filter (\<lambda>f. isl (readText rt f)) found"
    if "listable recursive (Dir es)"
  proof -
    from scan_Dir(1) [OF assms that] obtain found where
      f: "scan ?g rt p = Inr found" "set found = expansion (resolve rt p) es recursive"
      by blast
    from ne f(1) have "collect rt recursive [p] =
        \<lparr>results = succeeded rt found, errors = failed rt found\<rparr>"
      by (simp add: collect_single)
    then have "results (collect rt recursive [p]) = concat (map (statsOfFile rt) found)"
      "map fst (errors (collect rt recursive [p])) = filter (\<lambda>f. isl (readText rt f)) found"
      by (simp_all add: succeeded_statsOfFile failed_paths)
    with f show ?thesis by blast
  qed
  show "scan ?g rt p = Inl ScanFailed
           \<and> results (collect rt recursive [p]) = []
           \<and> errors (collect rt recursive [p]) = [(p, ScanFailed)]"
    if "\<not> listable recursive (Dir es)"
  proof -
    from scan_Dir(2) [OF assms that] have f: "scan ?g rt p = Inl ScanFailed" .
    with ne have "collect rt recursive [p] = \<lparr>results = [], errors = [(p, ScanFailed)]\<rparr>"
      by (simp add: collect_single)
    with f show ?thesis by simp
  qed
qed

text \<open>
  C5. An argument that names an existing file is analysed itself, whatever its name: the
  result is the stats of its text under the path as given, or its error line when the
  text cannot be read. An argument that names a directory is scanned. When the scan can
  list every directory it opens, it yields the expansion of the directory and nothing
  else: the absolute paths of the regular files under it with one of the extensions
  \<open>.txt\<close>, \<open>.md\<close>, \<open>.html\<close>, \<open>.json\<close> that no name beginning with a period
  leads to, directly inside the directory unless \<open>recursive\<close> is set, at any depth
  when it is; every path it yields is analysed like a named file, in the order of the
  scan. When the scan cannot list a directory it opens, no file is analysed and the error
  line of the argument is written.
\<close>

theorem resolve_argument:
  "(exists rt p \<longrightarrow>
      results (collect rt recursive [p]) = statsOfFile rt p
      \<and> errors (collect rt recursive [p]) =
           (case readText rt p of Inl err \<Rightarrow> [(p, err)] | Inr content \<Rightarrow> []))
   \<and> (lookup (root rt) (resolve rt p) = Some (Dir es) \<and> listable recursive (Dir es) \<longrightarrow>
        (\<exists>found.
           scan (if recursive then recursivePattern else flatPattern) rt p = Inr found
           \<and> set found = expansion (resolve rt p) es recursive
           \<and> results (collect rt recursive [p]) = concat (map (statsOfFile rt) found)
           \<and> map fst (errors (collect rt recursive [p])) =
               filter (\<lambda>f. isl (readText rt f)) found))
   \<and> (lookup (root rt) (resolve rt p) = Some (Dir es) \<and> \<not> listable recursive (Dir es) \<longrightarrow>
        scan (if recursive then recursivePattern else flatPattern) rt p = Inl ScanFailed
        \<and> results (collect rt recursive [p]) = []
        \<and> errors (collect rt recursive [p]) = [(p, ScanFailed)])"
  using collect_file [of rt p recursive] collect_directory [of rt p es recursive]
  by blast

theorem resolve_argument_witness:
  "exists demo (Rel [''notes.csv''])
   \<and> results (collect demo False [Rel [''notes.csv'']]) =
        [\<lparr>wordCount = 3, charCount = 18, paragraphCount = 2, readTime = 1,
          path = Rel [''notes.csv'']\<rparr>]
   \<and> errors (collect demo False [Rel [''notes.csv'']]) = []
   \<and> exists demo (Rel [''docs'', ''locked.json''])
   \<and> results (collect demo False [Rel [''docs'', ''locked.json'']]) = []
   \<and> errors (collect demo False [Rel [''docs'', ''locked.json'']]) =
        [(Rel [''docs'', ''locked.json''], ReadFailed)]
   \<and> listable False (Dir [(''a.txt'', File (Some (units ''one''))),
              (''b.md'', File (Some (units ''two''))),
              (''c.png'', File (Some (units ''three words here''))),
              (''.draft.md'', File (Some (units ''hidden''))),
              (''locked.json'', File None),
              (''sub'', Dir [(''d.html'', File (Some (units ''four'')))])])
   \<and> scan flatPattern demo (Rel [''docs'']) =
        Inr [Abs [''home'', ''docs'', ''a.txt''], Abs [''home'', ''docs'', ''b.md''],
             Abs [''home'', ''docs'', ''locked.json'']]
   \<and> results (collect demo False [Rel [''docs'']]) =
        [\<lparr>wordCount = 1, charCount = 3, paragraphCount = 1, readTime = 1,
          path = Abs [''home'', ''docs'', ''a.txt'']\<rparr>,
         \<lparr>wordCount = 1, charCount = 3, paragraphCount = 1, readTime = 1,
          path = Abs [''home'', ''docs'', ''b.md'']\<rparr>]
   \<and> map fst (errors (collect demo False [Rel [''docs'']])) =
        [Abs [''home'', ''docs'', ''locked.json'']]
   \<and> scan recursivePattern demo (Rel [''docs'']) =
        Inr [Abs [''home'', ''docs'', ''a.txt''], Abs [''home'', ''docs'', ''b.md''],
             Abs [''home'', ''docs'', ''locked.json''], Abs [''home'', ''docs'', ''sub'', ''d.html'']]
   \<and> map path (results (collect demo True [Rel [''docs'']])) =
        [Abs [''home'', ''docs'', ''a.txt''], Abs [''home'', ''docs'', ''b.md''],
         Abs [''home'', ''docs'', ''sub'', ''d.html'']]
   \<and> \<not> listable True (Dir [(''k.txt'', File (Some (units ''key''))), (''sealed'', Denied),
              (''z.md'', File (Some (units ''last words'')))])
   \<and> scan recursivePattern demo (Rel [''vault'']) = Inl ScanFailed
   \<and> results (collect demo True [Rel [''vault'']]) = []
   \<and> errors (collect demo True [Rel [''vault'']]) = [(Rel [''vault''], ScanFailed)]
   \<and> map path (results (collect demo False [Rel [''vault'']])) =
        [Abs [''home'', ''vault'', ''k.txt''], Abs [''home'', ''vault'', ''z.md'']]
   \<and> errors (collect demo False [Rel [''vault'']]) = []"
proof -
  let ?docs = "[(''a.txt'', File (Some (units ''one''))),
              (''b.md'', File (Some (units ''two''))),
              (''c.png'', File (Some (units ''three words here''))),
              (''.draft.md'', File (Some (units ''hidden''))),
              (''locked.json'', File None),
              (''sub'', Dir [(''d.html'', File (Some (units ''four'')))])]"
  let ?vault = "[(''k.txt'', File (Some (units ''key''))), (''sealed'', Denied),
              (''z.md'', File (Some (units ''last words'')))]"
  let ?a = "Abs [''home'', ''docs'', ''a.txt'']"
  let ?b = "Abs [''home'', ''docs'', ''b.md'']"
  let ?l = "Abs [''home'', ''docs'', ''locked.json'']"
  let ?d = "Abs [''home'', ''docs'', ''sub'', ''d.html'']"
  let ?k = "Abs [''home'', ''vault'', ''k.txt'']"
  let ?z = "Abs [''home'', ''vault'', ''z.md'']"
  have ex: "exists demo (Rel [''notes.csv''])"
    by (simp add: exists_def demo_def)
  have docs: "lookup (root demo) (resolve demo (Rel [''docs''])) = Some (Dir ?docs)"
    by (simp add: demo_def)
  have vault: "lookup (root demo) (resolve demo (Rel [''vault''])) = Some (Dir ?vault)"
    by (simp add: demo_def)
  have walk: "listable False (Dir ?docs)" "listable True (Dir ?docs)"
    "\<not> listable True (Dir ?vault)" "listable False (Dir ?vault)"
    by (simp_all add: hidden_def)
  have csv: "statsOfFile demo (Rel [''notes.csv'']) =
        [\<lparr>wordCount = 3, charCount = 18, paragraphCount = 2, readTime = 1,
          path = Rel [''notes.csv'']\<rparr>]"
    "readText demo (Rel [''notes.csv'']) = Inr (units ''Hello   world\<newline>\<newline>Foo'')"
    by code_simp+
  from resolve_argument [of demo "Rel [''notes.csv'']" False "[]"] ex csv
  have direct: "results (collect demo False [Rel [''notes.csv'']]) =
        [\<lparr>wordCount = 3, charCount = 18, paragraphCount = 2, readTime = 1,
          path = Rel [''notes.csv'']\<rparr>]
      \<and> errors (collect demo False [Rel [''notes.csv'']]) = []"
    by simp
  have exl: "exists demo (Rel [''docs'', ''locked.json''])"
    by (simp add: exists_def demo_def)
  have lck: "statsOfFile demo (Rel [''docs'', ''locked.json'']) = []"
    "readText demo (Rel [''docs'', ''locked.json'']) = Inl ReadFailed"
    by code_simp+
  from resolve_argument [of demo "Rel [''docs'', ''locked.json'']" False "[]"] exl lck
  have locked: "results (collect demo False [Rel [''docs'', ''locked.json'']]) = []
      \<and> errors (collect demo False [Rel [''docs'', ''locked.json'']]) =
            [(Rel [''docs'', ''locked.json''], ReadFailed)]"
    by simp
  have sf: "scan flatPattern demo (Rel [''docs'']) = Inr [?a, ?b, ?l]"
    by code_simp
  have sd: "scan recursivePattern demo (Rel [''docs'']) = Inr [?a, ?b, ?l, ?d]"
    by code_simp
  have sw: "scan flatPattern demo (Rel [''vault'']) = Inr [?k, ?z]"
    by code_simp
  have st: "statsOfFile demo ?a = [\<lparr>wordCount = 1, charCount = 3, paragraphCount = 1,
          readTime = 1, path = ?a\<rparr>]"
    "statsOfFile demo ?b = [\<lparr>wordCount = 1, charCount = 3, paragraphCount = 1,
          readTime = 1, path = ?b\<rparr>]"
    "statsOfFile demo ?l = []"
    "map path (statsOfFile demo ?d) = [?d]"
    "map path (statsOfFile demo ?k) = [?k]"
    "map path (statsOfFile demo ?z) = [?z]"
    by code_simp+
  have rd: "isl (readText demo ?a) = False" "isl (readText demo ?b) = False"
    "isl (readText demo ?l) = True" "isl (readText demo ?d) = False"
    "isl (readText demo ?k) = False" "isl (readText demo ?z) = False"
    by code_simp+
  from resolve_argument [of demo "Rel [''docs'']" False ?docs] docs walk(1)
  obtain found where "scan flatPattern demo (Rel [''docs'']) = Inr found"
    and f2: "results (collect demo False [Rel [''docs'']]) = concat (map (statsOfFile demo) found)"
    and f3: "map fst (errors (collect demo False [Rel [''docs'']])) =
              filter (\<lambda>f. isl (readText demo f)) found"
    by auto
  with sf have "found = [?a, ?b, ?l]" by simp
  with f2 f3 have r2: "results (collect demo False [Rel [''docs'']]) =
        [\<lparr>wordCount = 1, charCount = 3, paragraphCount = 1, readTime = 1, path = ?a\<rparr>,
         \<lparr>wordCount = 1, charCount = 3, paragraphCount = 1, readTime = 1, path = ?b\<rparr>]"
    and r3: "map fst (errors (collect demo False [Rel [''docs'']])) = [?l]"
    by (simp_all add: st rd)
  from resolve_argument [of demo "Rel [''docs'']" True ?docs] docs walk(2)
  obtain found' where "scan recursivePattern demo (Rel [''docs'']) = Inr found'"
    and d2: "results (collect demo True [Rel [''docs'']]) = concat (map (statsOfFile demo) found')"
    by auto
  with sd have "found' = [?a, ?b, ?l, ?d]" by simp
  with d2 have r5: "map path (results (collect demo True [Rel [''docs'']])) = [?a, ?b, ?d]"
    by (simp add: st)
  from resolve_argument [of demo "Rel [''vault'']" True ?vault] vault walk(3)
  have v: "scan recursivePattern demo (Rel [''vault'']) = Inl ScanFailed"
    "results (collect demo True [Rel [''vault'']]) = []"
    "errors (collect demo True [Rel [''vault'']]) = [(Rel [''vault''], ScanFailed)]"
    by simp_all
  from resolve_argument [of demo "Rel [''vault'']" False ?vault] vault walk(4)
  obtain found'' where "scan flatPattern demo (Rel [''vault'']) = Inr found''"
    and w1: "results (collect demo False [Rel [''vault'']]) = concat (map (statsOfFile demo) found'')"
    and w2: "map fst (errors (collect demo False [Rel [''vault'']])) =
              filter (\<lambda>f. isl (readText demo f)) found''"
    by auto
  with sw have "found'' = [?k, ?z]" by simp
  with w1 w2 have r8: "map path (results (collect demo False [Rel [''vault'']])) = [?k, ?z]"
    and "map fst (errors (collect demo False [Rel [''vault'']])) = []"
    by (simp_all add: st rd)
  then have r9: "errors (collect demo False [Rel [''vault'']]) = []"
    by simp
  from ex direct exl locked walk(1) sf r2 r3 sd r5 walk(3) v r8 r9 show ?thesis
    by blast
qed

text \<open>
  Not every file of a directory with one of the four extensions is analysed. In \<open>demo\<close>
  the regular file \<open>.draft.md\<close> lies directly in \<open>docs\<close> and can be read, and no
  result and no error line of the run on \<open>docs\<close> has its path, with \<open>recursive\<close> or
  without, though the file is analysed when it is named. The file \<open>k.txt\<close> lies
  directly in \<open>vault\<close>, and the run on \<open>vault\<close> with \<open>recursive\<close> analyses
  nothing, as the scan fails on the directory \<open>sealed\<close>.
\<close>

theorem resolve_argument_counterexample:
  "lookup (root demo) (resolve demo (Rel [''docs'', ''.draft.md''])) =
     Some (File (Some (units ''hidden'')))
   \<and> allowedExtension ''.draft.md''
   \<and> Abs [''home'', ''docs'', ''.draft.md'']
        \<notin> path ` set (results (collect demo False [Rel [''docs'']]))
   \<and> Abs [''home'', ''docs'', ''.draft.md'']
        \<notin> fst ` set (errors (collect demo False [Rel [''docs'']]))
   \<and> Abs [''home'', ''docs'', ''.draft.md'']
        \<notin> path ` set (results (collect demo True [Rel [''docs'']]))
   \<and> Abs [''home'', ''docs'', ''.draft.md'']
        \<notin> fst ` set (errors (collect demo True [Rel [''docs'']]))
   \<and> map path (results (collect demo False [Rel [''docs'', ''.draft.md'']])) =
        [Rel [''docs'', ''.draft.md'']]
   \<and> lookup (root demo) (resolve demo (Rel [''vault'', ''k.txt''])) =
        Some (File (Some (units ''key'')))
   \<and> allowedExtension ''k.txt''
   \<and> results (collect demo True [Rel [''vault'']]) = []"
proof -
  have a: "lookup (root demo) (resolve demo (Rel [''docs'', ''.draft.md''])) =
     Some (File (Some (units ''hidden'')))"
    "lookup (root demo) (resolve demo (Rel [''vault'', ''k.txt''])) =
        Some (File (Some (units ''key'')))"
    by (simp_all add: demo_def)
  have b: "allowedExtension ''.draft.md''" "allowedExtension ''k.txt''"
    by (simp_all add: allowedExtension_def endsWith_def)
  have c: "map path (results (collect demo False [Rel [''docs'']])) =
        [Abs [''home'', ''docs'', ''a.txt''], Abs [''home'', ''docs'', ''b.md'']]"
    "map fst (errors (collect demo False [Rel [''docs'']])) = [Abs [''home'', ''docs'', ''locked.json'']]"
    "map path (results (collect demo True [Rel [''docs'']])) =
        [Abs [''home'', ''docs'', ''a.txt''], Abs [''home'', ''docs'', ''b.md''],
         Abs [''home'', ''docs'', ''sub'', ''d.html'']]"
    "map fst (errors (collect demo True [Rel [''docs'']])) = [Abs [''home'', ''docs'', ''locked.json'']]"
    "map path (results (collect demo False [Rel [''docs'', ''.draft.md'']])) =
        [Rel [''docs'', ''.draft.md'']]"
    "results (collect demo True [Rel [''vault'']]) = []"
    by code_simp+
  have "path ` set (results (collect demo False [Rel [''docs'']])) =
          set (map path (results (collect demo False [Rel [''docs'']])))"
    "fst ` set (errors (collect demo False [Rel [''docs'']])) =
          set (map fst (errors (collect demo False [Rel [''docs'']])))"
    "path ` set (results (collect demo True [Rel [''docs'']])) =
          set (map path (results (collect demo True [Rel [''docs'']])))"
    "fst ` set (errors (collect demo True [Rel [''docs'']])) =
          set (map fst (errors (collect demo True [Rel [''docs'']])))"
    by simp_all
  with a b c show ?thesis by simp
qed

text \<open>
  C6. A failure is caught for the one path it happens on. The results and the errors of a
  batch are those of its arguments one by one, in order, so no argument changes what
  another gives. An existing file that cannot be processed, and every file of a scan that
  cannot, gives no result and the error line of its path; a path that is neither a file
  nor a directory gives the error line of the failed scan. The exit code is 0 whatever
  failed. With one path that fails and one that is processed, the results are the one
  entry of the second.
\<close>

theorem failures_per_path:
  "results (collect rt recursive files) =
     concat (map (\<lambda>p. results (collect rt recursive [p])) files)
   \<and> errors (collect rt recursive files) =
     concat (map (\<lambda>p. errors (collect rt recursive [p])) files)
   \<and> collect rt recursive [p] =
     (if exists rt p
      then \<lparr>results = succeeded rt [p], errors = failed rt [p]\<rparr>
      else case scan (if recursive then recursivePattern else flatPattern) rt p of
             Inl err \<Rightarrow> \<lparr>results = [], errors = [(p, err)]\<rparr>
           | Inr found \<Rightarrow> \<lparr>results = succeeded rt found, errors = failed rt found\<rparr>)
   \<and> analysed (processFiles rt recursive totalOnly files) = results (collect rt recursive files)
   \<and> stderr (processFiles rt recursive totalOnly files) = errors (collect rt recursive files)
   \<and> exitCode (processFiles rt recursive totalOnly files) = 0
   \<and> (exists rt bad \<and> processFile rt bad = Inl err \<and> processFile rt good = Inr stats \<longrightarrow>
        analysed (processFiles rt recursive totalOnly [bad, good]) = [stats]
        \<and> stderr (processFiles rt recursive totalOnly [bad, good]) = [(bad, err)]
        \<and> exitCode (processFiles rt recursive totalOnly [bad, good]) = 0)
   \<and> (\<not> exists rt bad
        \<and> scan (if recursive then recursivePattern else flatPattern) rt bad = Inl err
        \<and> processFile rt good = Inr stats \<longrightarrow>
        analysed (processFiles rt recursive totalOnly [bad, good]) = [stats]
        \<and> stderr (processFiles rt recursive totalOnly [bad, good]) = [(bad, err)]
        \<and> exitCode (processFiles rt recursive totalOnly [bad, good]) = 0)"
proof -
  have good: "collect rt recursive [good] = \<lparr>results = [stats], errors = []\<rparr>"
    if "processFile rt good = Inr stats"
    using that processFile_Inr(3) [OF that]
    by (simp add: collect_single succeeded_def failed_def)
  have one: "analysed (processFiles rt recursive totalOnly [bad, good]) = [stats]
        \<and> stderr (processFiles rt recursive totalOnly [bad, good]) = [(bad, err)]
        \<and> exitCode (processFiles rt recursive totalOnly [bad, good]) = 0"
    if "exists rt bad" "processFile rt bad = Inl err" "processFile rt good = Inr stats"
  proof -
    from that have "collect rt recursive [bad] = \<lparr>results = [], errors = [(bad, err)]\<rparr>"
      by (simp add: collect_single succeeded_def failed_def)
    with good [OF that(3)] show ?thesis
      by (simp add: processFiles_fields collect_per_path [of rt recursive "[bad, good]"])
  qed
  have two: "analysed (processFiles rt recursive totalOnly [bad, good]) = [stats]
        \<and> stderr (processFiles rt recursive totalOnly [bad, good]) = [(bad, err)]
        \<and> exitCode (processFiles rt recursive totalOnly [bad, good]) = 0"
    if "\<not> exists rt bad"
      "scan (if recursive then recursivePattern else flatPattern) rt bad = Inl err"
      "processFile rt good = Inr stats"
  proof -
    from that have "collect rt recursive [bad] = \<lparr>results = [], errors = [(bad, err)]\<rparr>"
      by (simp add: collect_single)
    with good [OF that(3)] show ?thesis
      by (simp add: processFiles_fields collect_per_path [of rt recursive "[bad, good]"])
  qed
  from one two show ?thesis
    using collect_per_path [of rt recursive files] collect_single [of rt recursive p]
      processFiles_fields [of rt recursive totalOnly files]
    by blast
qed

theorem failures_per_path_witness:
  "exists demo (Rel [''docs'', ''locked.json''])
   \<and> processFile demo (Rel [''docs'', ''locked.json'']) = Inl ReadFailed
   \<and> processFile demo (Rel [''notes.csv'']) =
        Inr \<lparr>wordCount = 3, charCount = 18, paragraphCount = 2, readTime = 1,
             path = Rel [''notes.csv'']\<rparr>
   \<and> analysed (processFiles demo False False [Rel [''docs'', ''locked.json''], Rel [''notes.csv'']]) =
        [\<lparr>wordCount = 3, charCount = 18, paragraphCount = 2, readTime = 1,
          path = Rel [''notes.csv'']\<rparr>]
   \<and> stderr (processFiles demo False False [Rel [''docs'', ''locked.json''], Rel [''notes.csv'']]) =
        [(Rel [''docs'', ''locked.json''], ReadFailed)]
   \<and> exitCode (processFiles demo False False [Rel [''docs'', ''locked.json''], Rel [''notes.csv'']]) = 0
   \<and> \<not> exists demo (Rel [''missing''])
   \<and> scan flatPattern demo (Rel [''missing'']) = Inl ScanFailed
   \<and> analysed (processFiles demo False False [Rel [''missing''], Rel [''notes.csv'']]) =
        [\<lparr>wordCount = 3, charCount = 18, paragraphCount = 2, readTime = 1,
          path = Rel [''notes.csv'']\<rparr>]
   \<and> stderr (processFiles demo False False [Rel [''missing''], Rel [''notes.csv'']]) =
        [(Rel [''missing''], ScanFailed)]
   \<and> stdout (processFiles demo False False [Rel [''missing''], Rel [''notes.csv'']]) =
        [''- notes.csv'', ''  words: 3'', ''  characters: 18'', ''  paragraphs: 2'',
         ''  read time: 1 minute'']"
proof -
  let ?bad = "Rel [''docs'', ''locked.json'']"
  let ?good = "Rel [''notes.csv'']"
  let ?stats = "\<lparr>wordCount = 3, charCount = 18, paragraphCount = 2, readTime = 1,
          path = Rel [''notes.csv'']\<rparr>"
  have e: "exists demo ?bad"
    by (simp add: exists_def demo_def)
  have b: "processFile demo ?bad = Inl ReadFailed"
    by (simp add: processFile_def exists_def readText_def demo_def)
  have g: "processFile demo ?good = Inr ?stats"
    by code_simp
  have ne: "\<not> exists demo (Rel [''missing''])"
    by (simp add: exists_def demo_def)
  have sc: "scan (if False then recursivePattern else flatPattern) demo (Rel [''missing'']) =
      Inl ScanFailed"
    by (simp add: scan_def demo_def)
  have out: "stdout (processFiles demo False False [Rel [''missing''], Rel [''notes.csv'']]) =
        [''- notes.csv'', ''  words: 3'', ''  characters: 18'', ''  paragraphs: 2'',
         ''  read time: 1 minute'']"
    by code_simp
  from failures_per_path [of demo False "[]" ?bad False ?bad ReadFailed ?good ?stats] e b g
  have r1: "analysed (processFiles demo False False [?bad, ?good]) = [?stats]
        \<and> stderr (processFiles demo False False [?bad, ?good]) = [(?bad, ReadFailed)]
        \<and> exitCode (processFiles demo False False [?bad, ?good]) = 0"
    by blast
  from failures_per_path [of demo False "[]" ?bad False "Rel [''missing'']" ScanFailed ?good ?stats]
    ne sc g
  have r2: "analysed (processFiles demo False False [Rel [''missing''], ?good]) = [?stats]
        \<and> stderr (processFiles demo False False [Rel [''missing''], ?good]) =
            [(Rel [''missing''], ScanFailed)]"
    by blast
  from sc have sc': "scan flatPattern demo (Rel [''missing'']) = Inl ScanFailed"
    by simp
  from e b g r1 ne sc' r2 out show ?thesis by blast
qed

text \<open>
  C10. The total read time that \<open>processFiles\<close> formats is the sum of the \<open>readTime\<close>
  values of the results, each the ceiling of the file's \<open>wordCount / 238\<close>. The sum is
  at least the ceiling of the sum of all word counts over 238, and it is more for the
  two files of one word each of \<open>demo\<close>: 2 minutes, where \<open>ceiling(2 / 238)\<close> is 1.
\<close>

theorem totalTime_sum_of_ceilings:
  "totalTime (analysed (processFiles rt recursive totalOnly files)) =
     sum_list (map (\<lambda>r. real_of_int \<lceil>real (wordCount r) / 238\<rceil>)
                (analysed (processFiles rt recursive totalOnly files)))
   \<and> totalTime (analysed (processFiles rt recursive totalOnly files)) =
     sum_list (map readTime (analysed (processFiles rt recursive totalOnly files)))
   \<and> real_of_int \<lceil>real (sum_list (map wordCount
          (analysed (processFiles rt recursive totalOnly files)))) / 238\<rceil>
       \<le> totalTime (analysed (processFiles rt recursive totalOnly files))
   \<and> (1 < length (analysed (processFiles rt recursive totalOnly files)) \<longrightarrow>
        last (stdout (processFiles rt recursive totalOnly files)) =
          ''  total read time: '' @
          formatReadTime (totalTime (analysed (processFiles rt recursive totalOnly files))))
   \<and> map wordCount (analysed (processFiles demo False False
          [Rel [''docs'', ''a.txt''], Rel [''docs'', ''b.md'']])) = [1, 1]
   \<and> totalTime (analysed (processFiles demo False False
          [Rel [''docs'', ''a.txt''], Rel [''docs'', ''b.md'']])) = 2
   \<and> real_of_int \<lceil>real (sum_list (map wordCount (analysed (processFiles demo False False
          [Rel [''docs'', ''a.txt''], Rel [''docs'', ''b.md'']])))) / 238\<rceil> = 1"
proof -
  let ?rs = "analysed (processFiles rt recursive totalOnly files)"
  have each: "readTime r = real_of_int \<lceil>real (wordCount r) / 238\<rceil>" if "r \<in> set ?rs" for r
  proof -
    from that obtain f where "processFile rt f = Inr r"
      using collect_source [of r rt recursive files] by (auto simp: processFiles_fields)
    then show ?thesis by (rule processFile_Inr(2))
  qed
  then have m: "map readTime ?rs = map (\<lambda>r. real_of_int \<lceil>real (wordCount r) / 238\<rceil>) ?rs"
    by simp
  have s: "totalTime ?rs = sum_list (map readTime ?rs)"
    by (rule totals_sum_list(4))
  have c: "totalTime ?rs = sum_list (map (\<lambda>r. real_of_int \<lceil>real (wordCount r) / 238\<rceil>) ?rs)"
    by (simp only: s m)
  have le: "real_of_int \<lceil>real (sum_list (map wordCount ?rs)) / 238\<rceil> \<le> totalTime ?rs"
    unfolding c by (rule ceiling_sum_le)
  have l: "last (stdout (processFiles rt recursive totalOnly files)) =
          ''  total read time: '' @ formatReadTime (totalTime ?rs)"
    if "1 < length ?rs"
  proof -
    from that have "results (collect rt recursive files) \<noteq> []"
      by (auto simp: processFiles_fields)
    with that show ?thesis
      by (simp add: processFiles_def Let_def report_def)
  qed
  let ?d = "analysed (processFiles demo False False
          [Rel [''docs'', ''a.txt''], Rel [''docs'', ''b.md'']])"
  have w: "map wordCount ?d = [1, 1]"
    by code_simp
  have t: "map readTime ?d = [1, 1]"
    by code_simp
  have d1: "totalTime ?d = 2"
    unfolding totals_sum_list(4) t by simp
  have "sum_list (map wordCount ?d) = 2"
    unfolding w by simp
  then have d2: "real_of_int \<lceil>real (sum_list (map wordCount ?d)) / 238\<rceil> = 1"
    by (simp only: ceiling_238) simp
  from c s le l w d1 d2 show ?thesis by blast
qed

theorem totalTime_sum_of_ceilings_witness:
  "1 < length (analysed (processFiles demo True False [Rel [''docs'']]))
   \<and> map wordCount (analysed (processFiles demo True False [Rel [''docs'']])) = [1, 1, 1]
   \<and> totalTime (analysed (processFiles demo True False [Rel [''docs'']])) = 3
   \<and> real_of_int \<lceil>real (sum_list (map wordCount
        (analysed (processFiles demo True False [Rel [''docs'']])))) / 238\<rceil> = 1
   \<and> last (stdout (processFiles demo True False [Rel [''docs'']])) =
        ''  total read time: 3 minutes''"
proof -
  let ?d = "analysed (processFiles demo True False [Rel [''docs'']])"
  have w: "map wordCount ?d = [1, 1, 1]"
    by code_simp
  then have n: "1 < length ?d"
    by (metis length_map length_Cons list.size(3) One_nat_def lessI less_Suc_eq)
  from totalTime_sum_of_ceilings [of demo True False "[Rel [''docs'']]"]
  have t: "totalTime ?d = sum_list (map (\<lambda>r. real_of_int \<lceil>real (wordCount r) / 238\<rceil>) ?d)"
    and l: "1 < length ?d \<longrightarrow> last (stdout (processFiles demo True False [Rel [''docs'']])) =
          ''  total read time: '' @ formatReadTime (totalTime ?d)"
    by blast+
  have "sum_list (map (\<lambda>r. real_of_int \<lceil>real (wordCount r) / 238\<rceil>) ?d) =
        sum_list (map (\<lambda>n. real_of_int \<lceil>real n / 238\<rceil>) (map wordCount ?d))"
    by (simp add: comp_def)
  also have "\<dots> = 3"
    unfolding w by (simp only: ceiling_238) simp
  finally have t3: "totalTime ?d = 3"
    using t by simp
  have "sum_list (map wordCount ?d) = 3"
    unfolding w by simp
  then have c: "real_of_int \<lceil>real (sum_list (map wordCount ?d)) / 238\<rceil> = 1"
    by (simp only: ceiling_238) simp
  have f: "formatReadTime 3 = ''3 minutes''"
    by (simp add: formatReadTime_def number_simps)
  from l n t3 f have "last (stdout (processFiles demo True False [Rel [''docs'']])) =
        ''  total read time: 3 minutes''"
    by simp
  with n w t3 c show ?thesis by blast
qed

end
